theory Spec2Isabelle
  imports Main "HOL-Library.Word"
begin

unbundle bit_operations_syntax

section \<open>Constants\<close>

text \<open>
  \<open>PAGE_SIZE\<close> and the two table capacities are written in the harness itself
  (\<open>#define PAGE_SIZE 4096\<close>, \<open>maps[0x100]\<close>, \<open>pages[0x1000]\<close>). The remaining
  numbers are the values the Linux x86-64 headers give to the names the harness uses.
\<close>

definition PAGE_SIZE :: "64 word" where
  "PAGE_SIZE = 4096"

definition MAX_PAGES :: nat where
  "MAX_PAGES = 0x1000"

definition MAX_MAPS :: nat where
  "MAX_MAPS = 0x100"

definition UFFD_PAGEFAULT_FLAG_WRITE :: "64 word" where
  "UFFD_PAGEFAULT_FLAG_WRITE = 1"

definition UFFD_PAGEFAULT_FLAG_WP :: "64 word" where
  "UFFD_PAGEFAULT_FLAG_WP = 2"

definition UFFDIO_WRITEPROTECT_MODE_WP :: "64 word" where
  "UFFDIO_WRITEPROTECT_MODE_WP = 1"

definition UFFDIO_REGISTER_MODE_WP :: "64 word" where
  "UFFDIO_REGISTER_MODE_WP = 2"

definition UFFD_API :: "64 word" where
  "UFFD_API = 0xAA"

definition UFFD_FEATURE_PAGEFAULT_FLAG_WP :: "64 word" where
  "UFFD_FEATURE_PAGEFAULT_FLAG_WP = 1"

definition POLLIN :: "16 word" where
  "POLLIN = 1"

definition POLLERR :: "16 word" where
  "POLLERR = 8"

definition EAGAIN :: int where
  "EAGAIN = 11"

definition sizeof_uffd_msg :: int where
  "sizeof_uffd_msg = 32"

definition PROT_READ :: "64 word" where
  "PROT_READ = 1"

definition PROT_WRITE :: "64 word" where
  "PROT_WRITE = 2"

definition PROT_EXEC :: "64 word" where
  "PROT_EXEC = 4"

definition MAP_PRIVATE :: "64 word" where
  "MAP_PRIVATE = 2"

definition MAP_FIXED :: "64 word" where
  "MAP_FIXED = 0x10"

definition MAP_ANONYMOUS :: "64 word" where
  "MAP_ANONYMOUS = 0x20"

definition NR_mmap :: nat where
  "NR_mmap = 9"

definition NR_mprotect :: nat where
  "NR_mprotect = 10"

definition NR_munmap :: nat where
  "NR_munmap = 11"

section \<open>Data model\<close>

text \<open>\<open>procmaps_struct\<close>: one line of the memory map (the list link is left out).\<close>

record procmaps_struct =
  addr_start :: "64 word"
  addr_end :: "64 word"
  length_of :: "64 word"
  perm :: string
  is_r :: bool
  is_w :: bool
  is_x :: bool
  is_p :: bool
  offset :: "64 word"
  dev :: string
  inode :: int
  pathname :: string

text \<open>\<open>page_t\<close>: a dirty-page record, the page address and a copy of the page.\<close>

record page_t =
  addr :: "64 word"
  data :: "8 word list"

text \<open>
  The requests the harness sends to the userfaultfd descriptor with \<open>ioctl\<close>, each with
  the fields of the argument structure that the harness fills in.
\<close>

datatype uffd_ioctl =
    UFFDIO_API
  | UFFDIO_REGISTER "64 word" "64 word" "64 word"
  | UFFDIO_UNREGISTER "64 word" "64 word"
  | UFFDIO_WRITEPROTECT "64 word" "64 word" "64 word"

text \<open>
  What \<open>remap\<close> does, step by step: a raw system call, by its number and its
  arguments in order, or one of the byte-by-byte copy loops, by source, destination and
  count.
\<close>

datatype remap_op =
    Syscall nat "64 word list"
  | Copy_bytes "64 word" "64 word" "64 word"

text \<open>
  The state the harness and the kernel share. \<open>mem\<close> is the address space; \<open>wp\<close> is the
  set of addresses whose page is write-protected through userfaultfd; \<open>maps\<close> and
  \<open>pages\<close> are the two static tables, each held as the list of its first \<open>n_maps\<close>
  (\<open>n_pages\<close>) entries, so the counters are the lengths of the lists; \<open>uffd_calls\<close>
  lists the requests issued on the userfaultfd descriptor, oldest first, and
  \<open>raw_calls\<close> the steps \<open>remap\<close> has taken; \<open>now\<close> is the reading of
  \<open>CLOCK_MONOTONIC\<close> in nanoseconds; \<open>times\<close> is the array of durations, indexed by
  iteration. The harness's own variables are kept apart from \<open>mem\<close>: the tables and
  stacks lie in the section \<open>.writeignored\<close>, which is never monitored, and \<open>times\<close>,
  declared in \<open>bench.h\<close>, is taken to lie outside the monitored regions as well.
\<close>

record harness =
  mem :: "64 word \<Rightarrow> 8 word"
  wp :: "64 word set"
  maps :: "procmaps_struct list"
  pages :: "page_t list"
  uffd_calls :: "uffd_ioctl list"
  raw_calls :: "remap_op list"
  now :: int
  times :: "nat \<Rightarrow> int"

abbreviation n_pages :: "harness \<Rightarrow> nat" where
  "n_pages s \<equiv> length (pages s)"

abbreviation n_maps :: "harness \<Rightarrow> nat" where
  "n_maps s \<equiv> length (maps s)"

text \<open>
  How a run of harness code ends early: the process leaves through \<open>_exit\<close> with a
  status, or a table entry past the end of \<open>maps\<close> or \<open>pages\<close> is written, which C
  leaves undefined.
\<close>

datatype error = Exit nat | Out_of_bounds

section \<open>Memory and the write-protect state\<close>

text \<open>\<open>memcpy\<close> out of the address space: \<open>n\<close> bytes starting at \<open>a\<close>.\<close>

definition load_bytes :: "(64 word \<Rightarrow> 8 word) \<Rightarrow> 64 word \<Rightarrow> nat \<Rightarrow> 8 word list" where
  "load_bytes m a n = map (\<lambda>k. m (a + of_nat k)) [0..<n]"

text \<open>\<open>memcpy\<close> into the address space: the bytes \<open>bs\<close>, stored from \<open>a\<close> upwards.\<close>

fun store_bytes :: "64 word \<Rightarrow> 8 word list \<Rightarrow> (64 word \<Rightarrow> 8 word) \<Rightarrow> (64 word \<Rightarrow> 8 word)" where
  "store_bytes a [] m = m"
| "store_bytes a (b # bs) m = store_bytes (a + 1) bs (m(a := b))"

text \<open>The address \<open>a\<close> lies in the range of \<open>len\<close> bytes that starts at \<open>start\<close>.\<close>

definition in_range :: "64 word \<Rightarrow> 64 word \<Rightarrow> 64 word \<Rightarrow> bool" where
  "in_range start len a \<longleftrightarrow> a - start < len"

text \<open>
  The kernel's side of \<open>UFFDIO_WRITEPROTECT\<close>: with the mode bit
  \<open>UFFDIO_WRITEPROTECT_MODE_WP\<close> the range becomes write-protected, without it the
  protection of the range is removed.
\<close>

definition uffdio_writeprotect :: "64 word \<Rightarrow> 64 word \<Rightarrow> 64 word \<Rightarrow> 64 word set \<Rightarrow> 64 word set" where
  "uffdio_writeprotect start len mode W =
     (if mode AND UFFDIO_WRITEPROTECT_MODE_WP \<noteq> 0
      then W \<union> {a. in_range start len a}
      else W - {a. in_range start len a})"

section \<open>The watcher\<close>

text \<open>The two fields of \<open>struct uffd_msg\<close> that the watcher reads.\<close>

record uffd_msg =
  pf_flags :: "64 word"
  pf_address :: "64 word"

text \<open>
  What the system calls of one pass of the watcher's loop return: \<open>poll\<close> and the
  \<open>revents\<close> it fills in, \<open>read\<close> with \<open>errno\<close> and the message it delivers, and the
  \<open>ioctl\<close> that removes the protection.
\<close>

record uffd_event =
  pollres :: int
  revents :: "16 word"
  readret :: int
  errno :: int
  msg :: uffd_msg
  ioctlret :: int

text \<open>
  One pass of the \<open>for (;;)\<close> loop of \<open>uffd_monitor_thread\<close>. \<open>Inr\<close> is the state
  with which the loop goes round again. The watcher never checks \<open>n_pages\<close> against the
  size of \<open>pages\<close>; the write past the end is \<open>Out_of_bounds\<close> here.
\<close>

definition uffd_monitor_step :: "uffd_event \<Rightarrow> harness \<Rightarrow> error + harness" where
  "uffd_monitor_step ev s =
     (if pollres ev = - 1 then Inr s
      else if pollres ev = 0 then Inr s
      else if revents ev AND POLLERR \<noteq> 0 then Inl (Exit 2)
      else if revents ev AND POLLIN = 0 then Inr s
      else if readret ev = - 1 then (if errno ev = EAGAIN then Inr s else Inl (Exit 3))
      else if readret ev \<noteq> sizeof_uffd_msg then Inl (Exit 4)
      else if pf_flags (msg ev) AND UFFD_PAGEFAULT_FLAG_WP \<noteq> 0 then
        (let page_addr = pf_address (msg ev) AND NOT (PAGE_SIZE - 1) in
         if MAX_PAGES \<le> n_pages s then Inl Out_of_bounds
         else
           let s1 = s\<lparr>pages := pages s @
                      [\<lparr>addr = page_addr, data = load_bytes (mem s) page_addr (unat PAGE_SIZE)\<rparr>],
                    uffd_calls := uffd_calls s @ [UFFDIO_WRITEPROTECT page_addr PAGE_SIZE 0]\<rparr>
           in if ioctlret ev = - 1 then Inl (Exit 5)
              else Inr (s1\<lparr>wp := uffdio_writeprotect page_addr PAGE_SIZE 0 (wp s1)\<rparr>))
      else Inr s)"

text \<open>
  The initial loop of \<open>uffd_monitor_thread\<close>: every region of \<open>maps\<close> is write-protected;
  a refused request ends the process with status 1. \<open>K\<close> is the kernel's answer to each
  request.
\<close>

fun uffd_monitor_init :: "(uffd_ioctl \<Rightarrow> int) \<Rightarrow> procmaps_struct list \<Rightarrow> harness \<Rightarrow> error + harness" where
  "uffd_monitor_init K [] s = Inr s"
| "uffd_monitor_init K (cur_map # rest) s =
     (let start = addr_start cur_map;
          len = addr_end cur_map - addr_start cur_map;
          req = UFFDIO_WRITEPROTECT start len UFFDIO_WRITEPROTECT_MODE_WP;
          s1 = s\<lparr>uffd_calls := uffd_calls s @ [req]\<rparr>
      in if K req = - 1 then Inl (Exit 1)
         else uffd_monitor_init K rest
                (s1\<lparr>wp := uffdio_writeprotect start len UFFDIO_WRITEPROTECT_MODE_WP (wp s1)\<rparr>))"

section \<open>Restore\<close>

text \<open>\<open>restore_pages\<close>: every record of the log is copied back to its address, in order.\<close>

definition restore_pages :: "harness \<Rightarrow> harness" where
  "restore_pages s =
     s\<lparr>mem := fold (\<lambda>cur_page m. store_bytes (addr cur_page) (take (unat PAGE_SIZE) (data cur_page)) m)
                 (pages s) (mem s)\<rparr>"

section \<open>The environment of an iteration\<close>

text \<open>
  What the environment decides about one iteration: the stores the target performs, and
  the nanoseconds that pass while the target runs (stack swaps included) and while
  \<open>restore_pages\<close> runs.
\<close>

record iteration =
  writes :: "(64 word \<times> 8 word) list"
  target_ns :: nat
  restore_ns :: nat

section \<open>The region remapper\<close>

text \<open>
  Modelled from the spec: the macros \<open>my_syscall2\<close>, \<open>my_syscall3\<close> and
  \<open>my_syscall6\<close> come from \<open>syscalls_x86_64.h\<close>, which is not among the sources; the
  spec has them invoke the raw OS primitive directly, so each is the system call of the
  given number with the given arguments.
\<close>

definition my_syscall2 :: "nat \<Rightarrow> 64 word \<Rightarrow> 64 word \<Rightarrow> remap_op" where
  "my_syscall2 nr a b = Syscall nr [a, b]"

definition my_syscall3 :: "nat \<Rightarrow> 64 word \<Rightarrow> 64 word \<Rightarrow> 64 word \<Rightarrow> remap_op" where
  "my_syscall3 nr a b c = Syscall nr [a, b, c]"

definition my_syscall6 ::
  "nat \<Rightarrow> 64 word \<Rightarrow> 64 word \<Rightarrow> 64 word \<Rightarrow> 64 word \<Rightarrow> 64 word \<Rightarrow> 64 word \<Rightarrow> remap_op" where
  "my_syscall6 nr a b c d e f = Syscall nr [a, b, c, d, e, f]"

definition remap_mmap ::
  "64 word \<Rightarrow> 64 word \<Rightarrow> 64 word \<Rightarrow> 64 word \<Rightarrow> 64 word \<Rightarrow> 64 word \<Rightarrow> remap_op" where
  "remap_mmap a len prot flags fd off = my_syscall6 NR_mmap a len prot flags fd off"

definition remap_mprotect :: "64 word \<Rightarrow> 64 word \<Rightarrow> 64 word \<Rightarrow> remap_op" where
  "remap_mprotect a len prot = my_syscall3 NR_mprotect a len prot"

definition remap_munmap :: "64 word \<Rightarrow> 64 word \<Rightarrow> remap_op" where
  "remap_munmap a len = my_syscall2 NR_mprotect a len"

text \<open>
  The body of the loop of \<open>remap\<close> for one region. Both \<open>mmap\<close> calls pass
  \<open>MAP_FIXED\<close>, so the pointers \<open>tmp\<close> and \<open>new\<close> they return are the addresses asked
  for.
\<close>

definition remap_region :: "procmaps_struct \<Rightarrow> remap_op list" where
  "remap_region cur_map =
     (let prot = (if is_r cur_map then PROT_READ else 0) OR
                 (if is_w cur_map then PROT_WRITE else 0) OR
                 (if is_x cur_map then PROT_EXEC else 0);
          tmp = 0xdead0000;
          new = addr_start cur_map
      in [remap_mmap 0xdead0000 (length_of cur_map) (PROT_READ OR PROT_WRITE)
            (MAP_PRIVATE OR MAP_ANONYMOUS OR MAP_FIXED) (- 1) 0,
          Copy_bytes (addr_start cur_map) tmp (length_of cur_map),
          remap_munmap (addr_start cur_map) (length_of cur_map),
          remap_mmap (addr_start cur_map) (addr_end cur_map - addr_start cur_map)
            (PROT_READ OR PROT_WRITE) (MAP_PRIVATE OR MAP_ANONYMOUS OR MAP_FIXED) (- 1) 0,
          Copy_bytes tmp new (length_of cur_map),
          remap_munmap 0xdead0000 (length_of cur_map),
          remap_mprotect (addr_start cur_map) (addr_end cur_map - addr_start cur_map) prot])"

fun remap :: "procmaps_struct list \<Rightarrow> remap_op list" where
  "remap [] = []"
| "remap (cur_map # rest) = remap_region cur_map @ remap rest"

section \<open>Choosing the monitored regions\<close>

text \<open>
  \<open>REMAP_ADDR\<close>, \<open>WRITE_IGNORED_ADDR\<close> and \<open>GOT_PLT_ADDR\<close> are given to the compiler
  from outside the sources, so they are parameters here.
\<close>

record layout =
  REMAP_ADDR :: "64 word"
  WRITE_IGNORED_ADDR :: "64 word"
  GOT_PLT_ADDR :: "64 word"

text \<open>
  The \<open>while\<close> loop of \<open>load_maps\<close> over the regions that \<open>pmparser_next\<close> yields;
  \<open>ms\<close> is the table \<open>maps\<close> so far. The loop never checks \<open>n_maps\<close> against the
  size of \<open>maps\<close>.
\<close>

fun load_maps_loop :: "layout \<Rightarrow> procmaps_struct list \<Rightarrow> procmaps_struct list \<Rightarrow> error + procmaps_struct list" where
  "load_maps_loop L [] ms = Inr ms"
| "load_maps_loop L (cur_map # rest) ms =
     (if addr_start cur_map = REMAP_ADDR L \<or> addr_start cur_map = WRITE_IGNORED_ADDR L
        then load_maps_loop L rest ms
      else if \<not> (is_r cur_map \<or> is_w cur_map \<or> is_x cur_map)
        then load_maps_loop L rest ms
      else if pathname cur_map = ''[vsyscall]'' \<or> pathname cur_map = ''[vvar]'' \<or>
              pathname cur_map = ''[vdso]''
        then load_maps_loop L rest ms
      else if addr_start cur_map = GOT_PLT_ADDR L
        then load_maps_loop L rest ms
      else if MAX_MAPS \<le> length ms then Inl Out_of_bounds
      else load_maps_loop L rest (ms @ [cur_map]))"

text \<open>
  \<open>load_maps\<close>: \<open>None\<close> stands for a memory map that \<open>pmparser_parse\<close> could not open;
  the integer is the value returned.
\<close>

definition load_maps :: "layout \<Rightarrow> procmaps_struct list option \<Rightarrow> harness \<Rightarrow> error + (int \<times> harness)" where
  "load_maps L proc_maps s =
     (case proc_maps of
        None \<Rightarrow> Inr (- 1, s)
      | Some regions \<Rightarrow>
          (case load_maps_loop L regions (maps s) of
             Inl e \<Rightarrow> Inl e
           | Inr ms \<Rightarrow> Inr (0, s\<lparr>maps := ms\<rparr>)))"

section \<open>Setting up and taking down the fault channel\<close>

text \<open>
  What the environment decides about one run: the memory map read at the start, the
  descriptor \<open>userfaultfd\<close> returns, the result of the \<open>UFFDIO_API\<close> handshake and the
  two fields it fills in, the kernel's answer to every later request, and the iterations.
\<close>

record env =
  proc_maps :: "procmaps_struct list option"
  userfaultfd_ret :: int
  api_ret :: int
  api_api :: "64 word"
  api_features :: "64 word"
  kernel :: "uffd_ioctl \<Rightarrow> int"
  iterations :: "iteration list"

text \<open>The registration loop of \<open>uffd_setup\<close>; \<open>False\<close> when a request was refused.\<close>

fun uffd_register_all :: "(uffd_ioctl \<Rightarrow> int) \<Rightarrow> procmaps_struct list \<Rightarrow> harness \<Rightarrow> bool \<times> harness" where
  "uffd_register_all K [] s = (True, s)"
| "uffd_register_all K (cur_map # rest) s =
     (let req = UFFDIO_REGISTER (addr_start cur_map) (addr_end cur_map - addr_start cur_map)
                  UFFDIO_REGISTER_MODE_WP;
          s1 = s\<lparr>uffd_calls := uffd_calls s @ [req]\<rparr>
      in if K req = - 1 then (False, s1) else uffd_register_all K rest s1)"

definition uffd_setup :: "env \<Rightarrow> harness \<Rightarrow> int \<times> harness" where
  "uffd_setup e s =
     (let uffd = userfaultfd_ret e in
      if uffd < 0 then (0, s)
      else
        let s1 = s\<lparr>uffd_calls := uffd_calls s @ [UFFDIO_API]\<rparr> in
        if api_ret e \<noteq> 0 then (0, s1)
        else if api_api e \<noteq> UFFD_API then (0, s1)
        else if api_features e AND UFFD_FEATURE_PAGEFAULT_FLAG_WP = 0 then (0, s1)
        else (case uffd_register_all (kernel e) (maps s1) s1 of
                (False, s2) \<Rightarrow> (0, s2)
              | (True, s2) \<Rightarrow> (uffd, s2)))"

text \<open>\<open>uffd_deregister\<close>: 1 at the first refused request, 0 when every region is done.\<close>

fun uffd_deregister :: "(uffd_ioctl \<Rightarrow> int) \<Rightarrow> procmaps_struct list \<Rightarrow> harness \<Rightarrow> int \<times> harness" where
  "uffd_deregister K [] s = (0, s)"
| "uffd_deregister K (cur_map # rest) s =
     (let req = UFFDIO_UNREGISTER (addr_start cur_map) (addr_end cur_map - addr_start cur_map);
          s1 = s\<lparr>uffd_calls := uffd_calls s @ [req]\<rparr>
      in if K req = - 1 then (1, s1) else uffd_deregister K rest s1)"

section \<open>The target and the iteration driver\<close>

text \<open>The page address the watcher computes for a fault address.\<close>

definition page_of :: "64 word \<Rightarrow> 64 word" where
  "page_of a = a AND NOT (PAGE_SIZE - 1)"

text \<open>
  The kernel's side of a write to a write-protected page: \<open>poll\<close> reports the
  descriptor readable, \<open>read\<close> delivers one whole message with the write and
  write-protect flags and the fault address, and the request that removes the protection
  is answered by \<open>K\<close>.
\<close>

definition wp_fault_event :: "(uffd_ioctl \<Rightarrow> int) \<Rightarrow> 64 word \<Rightarrow> uffd_event" where
  "wp_fault_event K a =
     \<lparr>pollres = 1, revents = POLLIN, readret = sizeof_uffd_msg, errno = 0,
      msg = \<lparr>pf_flags = UFFD_PAGEFAULT_FLAG_WP OR UFFD_PAGEFAULT_FLAG_WRITE, pf_address = a\<rparr>,
      ioctlret = K (UFFDIO_WRITEPROTECT (page_of a) PAGE_SIZE 0)\<rparr>"

text \<open>
  One store of the byte \<open>v\<close> to the address \<open>a\<close> by the target. A store to a
  write-protected address is held by the kernel until the watcher has handled the fault;
  any other store goes straight to memory.
\<close>

definition target_write :: "(uffd_ioctl \<Rightarrow> int) \<Rightarrow> 64 word \<times> 8 word \<Rightarrow> harness \<Rightarrow> error + harness" where
  "target_write K w s =
     (if fst w \<in> wp s
      then (case uffd_monitor_step (wp_fault_event K (fst w)) s of
              Inl e \<Rightarrow> Inl e
            | Inr s1 \<Rightarrow> Inr (s1\<lparr>mem := (mem s1)(fst w := snd w)\<rparr>))
      else Inr (s\<lparr>mem := (mem s)(fst w := snd w)\<rparr>))"

text \<open>The stores of one call of \<open>target_main\<close>, in program order.\<close>

fun run_target :: "(uffd_ioctl \<Rightarrow> int) \<Rightarrow> (64 word \<times> 8 word) list \<Rightarrow> harness \<Rightarrow> error + harness" where
  "run_target K [] s = Inr s"
| "run_target K (w # ws) s =
     (case target_write K w s of Inl e \<Rightarrow> Inl e | Inr s1 \<Rightarrow> run_target K ws s1)"

text \<open>The clock moves on by \<open>d\<close> nanoseconds.\<close>

definition elapse :: "nat \<Rightarrow> harness \<Rightarrow> harness" where
  "elapse d s = s\<lparr>now := now s + int d\<rparr>"

text \<open>
  Modelled from the spec: \<open>timespecDiff\<close> is declared in \<open>bench.h\<close>, which is not
  among the sources; the spec calls it the service that measures the elapsed time between
  two readings of the monotonic clock.
\<close>

definition timespecDiff :: "int \<Rightarrow> int \<Rightarrow> int" where
  "timespecDiff end_t start_t = end_t - start_t"

text \<open>
  The body of the \<open>for\<close> loop of \<open>run\<close> for the index \<open>i\<close>: read the clock, swap
  stacks, call the target, swap back, \<open>restore_pages\<close>, read the clock, store the
  difference in \<open>times[i]\<close>.
\<close>

definition run_iteration :: "(uffd_ioctl \<Rightarrow> int) \<Rightarrow> nat \<Rightarrow> iteration \<Rightarrow> harness \<Rightarrow> error + harness" where
  "run_iteration K i it s =
     (let start_t = now s in
      case run_target K (writes it) s of
        Inl e \<Rightarrow> Inl e
      | Inr s1 \<Rightarrow>
          let s2 = elapse (target_ns it) s1;
              s3 = elapse (restore_ns it) (restore_pages s2);
              end_t = now s3
          in Inr (s3\<lparr>times := (times s3)(i := timespecDiff end_t start_t)\<rparr>))"

text \<open>The loop itself; the list holds one entry per iteration, so its length is \<open>ITERS\<close>.\<close>

fun run_loop :: "(uffd_ioctl \<Rightarrow> int) \<Rightarrow> nat \<Rightarrow> iteration list \<Rightarrow> harness \<Rightarrow> error + harness" where
  "run_loop K i [] s = Inr s"
| "run_loop K i (it # its) s =
     (case run_iteration K i it s of Inl e \<Rightarrow> Inl e | Inr s1 \<Rightarrow> run_loop K (Suc i) its s1)"

text \<open>
  \<open>run\<close>, with the value it returns. The watcher is started once \<open>uffd_setup\<close> has
  succeeded and the driver waits until the watcher has armed every region; the contents
  of memory are the same before and after \<open>remap\<close>. Redirecting standard output,
  pinning the CPU and reporting the times touch nothing of the state and are left out.
\<close>

definition run :: "layout \<Rightarrow> env \<Rightarrow> harness \<Rightarrow> error + (int \<times> harness)" where
  "run L e s =
     (case load_maps L (proc_maps e) s of
        Inl err \<Rightarrow> Inl err
      | Inr (r, s1) \<Rightarrow>
          if r \<noteq> 0 then Inr (1, s1)
          else
            let s2 = s1\<lparr>raw_calls := raw_calls s1 @ remap (maps s1)\<rparr> in
            (case uffd_setup e s2 of
               (uffd, s3) \<Rightarrow>
                 if uffd = 0 then Inr (1, s3)
                 else (case uffd_monitor_init (kernel e) (maps s3) s3 of
                         Inl err \<Rightarrow> Inl err
                       | Inr s4 \<Rightarrow>
                           (case run_loop (kernel e) 0 (iterations e) s4 of
                              Inl err \<Rightarrow> Inl err
                            | Inr s5 \<Rightarrow> Inr (0, s5)))))"

section \<open>Notions used in the statements\<close>

text \<open>The addresses the target stores to in the given iterations.\<close>

definition written :: "iteration list \<Rightarrow> 64 word set" where
  "written its = fst ` set (concat (map writes its))"

text \<open>The addresses of the regions of a table: what the watcher arms at its start.\<close>

definition monitored :: "procmaps_struct list \<Rightarrow> 64 word set" where
  "monitored ms =
     {a. \<exists>cur_map\<in>set ms. in_range (addr_start cur_map) (addr_end cur_map - addr_start cur_map) a}"

text \<open>
  The state right after the watcher has handled a write fault at the address \<open>a\<close>: the
  record of the page of \<open>a\<close> is the last of the log and the page is released.
\<close>

definition after_fault :: "64 word \<Rightarrow> harness \<Rightarrow> harness" where
  "after_fault a s =
     s\<lparr>pages := pages s @ [\<lparr>addr = page_of a, data = load_bytes (mem s) (page_of a) (unat PAGE_SIZE)\<rparr>],
       uffd_calls := uffd_calls s @ [UFFDIO_WRITEPROTECT (page_of a) PAGE_SIZE 0],
       wp := wp s - {x. in_range (page_of a) PAGE_SIZE x}\<rparr>"

text \<open>
  The invariant of the log with respect to the monitored addresses \<open>M\<close> and their
  contents \<open>m0\<close> at the start of the run: a monitored address that is still protected
  holds its original byte; one that is no longer protected lies in a logged page; and
  every record is a whole aligned page, none of it protected, that holds the original
  byte of each monitored address in it.
\<close>

definition log_inv :: "64 word set \<Rightarrow> (64 word \<Rightarrow> 8 word) \<Rightarrow> harness \<Rightarrow> bool" where
  "log_inv M m0 s \<longleftrightarrow>
     (\<forall>a\<in>M. a \<in> wp s \<longrightarrow> mem s a = m0 a) \<and>
     (\<forall>a\<in>M. a \<notin> wp s \<longrightarrow> (\<exists>r\<in>set (pages s). in_range (addr r) PAGE_SIZE a)) \<and>
     (\<forall>r\<in>set (pages s). page_of (addr r) = addr r \<and> length (data r) = unat PAGE_SIZE \<and>
        (\<forall>a. in_range (addr r) PAGE_SIZE a \<longrightarrow>
           a \<notin> wp s \<and> (a \<in> M \<longrightarrow> data r ! unat (a - addr r) = m0 a)))"

text \<open>
  The invariant that counts the log: no page is logged twice, every logged page is the
  page of a monitored address among the written addresses \<open>W\<close>, and only monitored
  addresses are protected.
\<close>

definition count_inv :: "64 word set \<Rightarrow> 64 word set \<Rightarrow> harness \<Rightarrow> bool" where
  "count_inv M W s \<longleftrightarrow>
     distinct (map addr (pages s)) \<and> addr ` set (pages s) \<subseteq> page_of ` (W \<inter> M) \<and> wp s \<subseteq> M"

text \<open>
  Poll reported an event on the descriptor, without \<open>POLLERR\<close> and with \<open>POLLIN\<close>: the
  watcher goes on to \<open>read\<close>.
\<close>

definition readable :: "uffd_event \<Rightarrow> bool" where
  "readable ev \<longleftrightarrow>
     pollres ev \<noteq> - 1 \<and> pollres ev \<noteq> 0 \<and> revents ev AND POLLERR = 0 \<and> revents ev AND POLLIN \<noteq> 0"

text \<open>
  The filtering policy in the spec's words: not one of the harness's reserved segments
  (the remap and write-ignored sections), at least one of read, write and execute
  permission, not one of the three OS pseudo-regions, and not the dynamic-linkage region.
\<close>

definition selected :: "layout \<Rightarrow> procmaps_struct \<Rightarrow> bool" where
  "selected L r \<longleftrightarrow>
     addr_start r \<noteq> REMAP_ADDR L \<and> addr_start r \<noteq> WRITE_IGNORED_ADDR L \<and>
     (is_r r \<or> is_w r \<or> is_x r) \<and>
     pathname r \<notin> {''[vsyscall]'', ''[vvar]'', ''[vdso]''} \<and>
     addr_start r \<noteq> GOT_PLT_ADDR L"

text \<open>The requests that take a range out of the fault channel.\<close>

fun is_unregister :: "uffd_ioctl \<Rightarrow> bool" where
  "is_unregister (UFFDIO_UNREGISTER start len) = True"
| "is_unregister _ = False"

section \<open>Sample inputs\<close>

text \<open>
  A sample state: an address space of zero bytes, nothing protected, both tables empty
  as the static initialisers leave them.
\<close>

definition zero_state :: harness where
  "zero_state = \<lparr>mem = (\<lambda>_. 0), wp = {}, maps = [], pages = [], uffd_calls = [], raw_calls = [],
                 now = 0, times = (\<lambda>_. 0)\<rparr>"

text \<open>A readable and writable anonymous region of 32 MiB, and the state in which it is armed.\<close>

definition big_region :: procmaps_struct where
  "big_region = \<lparr>addr_start = 0x10000000, addr_end = 0x12000000, length_of = 0x2000000,
                  perm = ''rw-p'', is_r = True, is_w = True, is_x = False, is_p = True,
                  offset = 0, dev = ''00:00'', inode = 0, pathname = ''[heap]''\<rparr>"

definition armed :: harness where
  "armed = zero_state\<lparr>maps := [big_region], wp := monitored [big_region]\<rparr>"

text \<open>
  Two short iterations: the first stores twice into the first page of the region, the
  second once into its second page.
\<close>

definition two_stores :: iteration where
  "two_stores = \<lparr>writes = [(0x10000000, 1), (0x10000004, 2)], target_ns = 5, restore_ns = 7\<rparr>"

definition one_store :: iteration where
  "one_store = \<lparr>writes = [(0x10001008, 3)], target_ns = 5, restore_ns = 7\<rparr>"

text \<open>
  Two long ones: the first stores one byte into each of the first \<open>0x1000\<close> pages of
  the region, the second one byte into the page after them.
\<close>

definition touch_addr :: "nat \<Rightarrow> 64 word" where
  "touch_addr k = 0x10000000 + of_nat k * PAGE_SIZE"

definition touch_pages :: "nat \<Rightarrow> (64 word \<times> 8 word) list" where
  "touch_pages n = map (\<lambda>k. (touch_addr k, 1)) [0..<n]"

definition fill_log :: iteration where
  "fill_log = \<lparr>writes = touch_pages MAX_PAGES, target_ns = 0, restore_ns = 0\<rparr>"

definition one_more :: iteration where
  "one_more = \<lparr>writes = [(touch_addr MAX_PAGES, 1)], target_ns = 0, restore_ns = 0\<rparr>"

text \<open>
  A memory map of five regions, of which only the second passes the filter, with the
  addresses of the reserved sections it is read against, and a run in which every system
  call succeeds.
\<close>

definition sample_layout :: layout where
  "sample_layout = \<lparr>REMAP_ADDR = 0x700000, WRITE_IGNORED_ADDR = 0x800000, GOT_PLT_ADDR = 0x900000\<rparr>"

definition sample_regions :: "procmaps_struct list" where
  "sample_regions =
     [big_region\<lparr>addr_start := 0x700000, addr_end := 0x701000, length_of := 0x1000,
                 pathname := ''/bench/djpeg''\<rparr>,
      big_region,
      big_region\<lparr>addr_start := 0x7fff0000, addr_end := 0x7fff2000, length_of := 0x2000,
                 pathname := ''[vdso]''\<rparr>,
      big_region\<lparr>addr_start := 0x20000000, addr_end := 0x20001000, length_of := 0x1000,
                 perm := ''---p'', is_r := False, is_w := False, pathname := []\<rparr>,
      big_region\<lparr>addr_start := 0x900000, addr_end := 0x901000, length_of := 0x1000,
                 pathname := ''/bench/djpeg''\<rparr>]"

definition sample_env :: env where
  "sample_env = \<lparr>proc_maps = Some sample_regions,
                  userfaultfd_ret = 3, api_ret = 0, api_api = UFFD_API,
                  api_features = UFFD_FEATURE_PAGEFAULT_FLAG_WP, kernel = (\<lambda>_. 0),
                  iterations = [two_stores]\<rparr>"

section \<open>Word arithmetic of pages\<close>

lemma load_bytes_length: "length (load_bytes m a n) = n"
  by (simp add: load_bytes_def)

lemma page_mask: "PAGE_SIZE - 1 = mask 12"
  by (simp add: PAGE_SIZE_def mask_eq_exp_minus_1)

lemma unat_PAGE_SIZE: "unat PAGE_SIZE = 4096"
  by (simp add: PAGE_SIZE_def)

lemma split_page: "(a AND NOT (mask 12)) + (a AND mask 12) = (a::64 word)"
proof -
  have "(a AND NOT (mask 12)) AND (a AND mask 12) = 0"
    by (rule bit_eqI) (auto simp: bit_simps)
  then have "(a AND NOT (mask 12)) + (a AND mask 12) = (a AND NOT (mask 12)) OR (a AND mask 12)"
    by (rule disjunctive_add_eq_or)
  also have "\<dots> = a"
    by (rule bit_eqI) (auto simp: bit_simps)
  finally show ?thesis .
qed

lemma page_of_in_range: "in_range (page_of a) PAGE_SIZE a"
proof -
  have "a - page_of a = a AND mask 12"
    using split_page [of a] by (simp add: page_of_def page_mask algebra_simps)
  moreover have "a AND mask 12 < (2 ^ 12 :: 64 word)"
    by (rule and_mask_less') simp
  ultimately show ?thesis
    by (simp add: in_range_def PAGE_SIZE_def)
qed

lemma in_range_page_of:
  assumes "page_of p = p" and "in_range p PAGE_SIZE a"
  shows "page_of a = p"
proof -
  define d where "d = a - p"
  have a: "a = p + d" by (simp add: d_def)
  have "d < 2 ^ 12" using assms(2) by (simp add: in_range_def PAGE_SIZE_def d_def)
  then have dm: "d AND mask 12 = d" by (rule less_mask_eq)
  have pm: "p AND NOT (mask 12) = p" using assms(1) by (simp add: page_of_def page_mask)
  have "p AND d = (p AND NOT (mask 12)) AND (d AND mask 12)" by (simp add: dm pm)
  also have "\<dots> = 0" by (rule bit_eqI) (auto simp: bit_simps)
  finally have "p + d = p OR d" by (rule disjunctive_add_eq_or)
  moreover have "(p OR d) AND NOT (mask 12) = (p AND NOT (mask 12)) OR ((d AND mask 12) AND NOT (mask 12))"
    by (simp add: dm bit.conj_disj_distrib2)
  moreover have "(d AND mask 12) AND NOT (mask 12) = 0" by (rule bit_eqI) (auto simp: bit_simps)
  ultimately show ?thesis by (simp add: a page_of_def page_mask pm)
qed

lemma page_of_idem: "page_of (page_of a) = page_of a"
  by (simp add: page_of_def page_mask)

lemma page_of_aligned: "page_of a AND (PAGE_SIZE - 1) = 0"
  unfolding page_of_def page_mask by (rule bit_eqI) (auto simp: bit_simps)

lemma in_range_offset:
  "in_range p len a \<Longrightarrow> a = p + of_nat (unat (a - p)) \<and> unat (a - p) < unat len"
  using in_range_def word_less_nat_alt by fastforce

lemma store_bytes_apply:
  "length bs \<le> 2 ^ 64 \<Longrightarrow>
   store_bytes a bs m x = (if unat (x - a) < length bs then bs ! unat (x - a) else m x)"
proof (induction bs arbitrary: a m)
  case Nil
  then show ?case by simp
next
  case (Cons b bs)
  have len: "length bs < 2 ^ 64" using Cons.prems by simp
  have IH: "store_bytes (a + 1) bs (m(a := b)) x =
      (if unat (x - (a + 1)) < length bs then bs ! unat (x - (a + 1)) else (m(a := b)) x)"
    by (rule Cons.IH) (use len in simp)
  show ?case
  proof (cases "x = a")
    case True
    have "a - (a + 1) = (- 1 :: 64 word)" by simp
    then have "unat (a - (a + 1)) = 2 ^ 64 - 1" by (simp add: unsigned_minus_1_eq_mask mask_eq_exp_minus_1)
    then have "\<not> unat (a - (a + 1)) < length bs" using len by linarith
    then have "store_bytes (a + 1) bs (m(a := b)) a = b"
      using IH unfolding True by simp
    then show ?thesis unfolding True by simp
  next
    case False
    then have nz: "x - a \<noteq> 0" by simp
    have "x - (a + 1) = (x - a) - 1" by simp
    moreover have "unat ((x - a) - 1) = unat (x - a) - 1" using nz by (rule unat_minus_one)
    ultimately have "unat (x - (a + 1)) = unat (x - a) - 1" by (simp only:)
    moreover have "0 < unat (x - a)" using nz unat_gt_0 [of "x - a"] by blast
    ultimately show ?thesis using IH False by (auto simp: nth_Cons')
  qed
qed

lemma load_bytes_nth: "k < n \<Longrightarrow> load_bytes m a n ! k = m (a + of_nat k)"
  by (simp add: load_bytes_def)

section \<open>The log invariant\<close>

lemma restore_one:
  assumes "length (data r) = unat PAGE_SIZE"
  shows "store_bytes (addr r) (take (unat PAGE_SIZE) (data r)) m x =
         (if in_range (addr r) PAGE_SIZE x then data r ! unat (x - addr r) else m x)"
proof -
  have "length (take (unat PAGE_SIZE) (data r)) \<le> 2 ^ 64"
    using assms by (simp add: unat_PAGE_SIZE)
  then show ?thesis
    using assms by (simp add: store_bytes_apply in_range_def word_less_nat_alt)
qed

lemma fault_step:
  assumes "K (UFFDIO_WRITEPROTECT (page_of a) PAGE_SIZE 0) \<noteq> - 1" and "n_pages s < MAX_PAGES"
  shows "uffd_monitor_step (wp_fault_event K a) s =
         Inr (s\<lparr>pages := pages s @ [\<lparr>addr = page_of a, data = load_bytes (mem s) (page_of a) (unat PAGE_SIZE)\<rparr>],
                uffd_calls := uffd_calls s @ [UFFDIO_WRITEPROTECT (page_of a) PAGE_SIZE 0],
                wp := wp s - {x. in_range (page_of a) PAGE_SIZE x}\<rparr>)"
  using assms
  by (simp add: uffd_monitor_step_def wp_fault_event_def POLLIN_def POLLERR_def
      sizeof_uffd_msg_def UFFD_PAGEFAULT_FLAG_WP_def UFFD_PAGEFAULT_FLAG_WRITE_def
      uffdio_writeprotect_def page_of_def Let_def)

lemma fault_step_cases:
  assumes "uffd_monitor_step (wp_fault_event K a) s = Inr s1"
  shows "s1 = s\<lparr>pages := pages s @ [\<lparr>addr = page_of a, data = load_bytes (mem s) (page_of a) (unat PAGE_SIZE)\<rparr>],
                uffd_calls := uffd_calls s @ [UFFDIO_WRITEPROTECT (page_of a) PAGE_SIZE 0],
                wp := wp s - {x. in_range (page_of a) PAGE_SIZE x}\<rparr> \<and> n_pages s < MAX_PAGES"
  using assms
  by (simp add: uffd_monitor_step_def wp_fault_event_def POLLIN_def POLLERR_def
      sizeof_uffd_msg_def UFFD_PAGEFAULT_FLAG_WP_def UFFD_PAGEFAULT_FLAG_WRITE_def
      uffdio_writeprotect_def page_of_def Let_def split: if_splits)

lemma logged_not_wp:
  assumes "log_inv M m0 s" and "r \<in> set (pages s)" and "page_of x = addr r"
  shows "x \<notin> wp s"
proof -
  have "in_range (addr r) PAGE_SIZE x"
    using page_of_in_range [of x] assms(3) by simp
  then show ?thesis using assms(1,2) unfolding log_inv_def by blast
qed

lemma covered_page:
  assumes "log_inv M m0 s" and "r \<in> set (pages s)" and "in_range (addr r) PAGE_SIZE x"
  shows "page_of x = addr r"
  using assms in_range_page_of unfolding log_inv_def by blast

lemma log_inv_fault:
  assumes inv: "log_inv M m0 s" and a: "a \<in> wp s"
  shows "log_inv M m0 (after_fault a s)"
proof -
  let ?p = "page_of a"
  let ?r0 = "\<lparr>addr = ?p, data = load_bytes (mem s) ?p (unat PAGE_SIZE)\<rparr>"
  have pg: "pages (after_fault a s) = pages s @ [?r0]"
    and w: "wp (after_fault a s) = wp s - {x. in_range ?p PAGE_SIZE x}"
    and m: "mem (after_fault a s) = mem s"
    by (simp_all add: after_fault_def)
  have c1: "\<forall>x\<in>M. x \<in> wp (after_fault a s) \<longrightarrow> mem (after_fault a s) x = m0 x"
    using inv unfolding log_inv_def w m by blast
  have c2: "\<forall>x\<in>M. x \<notin> wp (after_fault a s) \<longrightarrow>
              (\<exists>r\<in>set (pages (after_fault a s)). in_range (addr r) PAGE_SIZE x)"
  proof (intro ballI impI)
    fix x assume "x \<in> M" and "x \<notin> wp (after_fault a s)"
    then consider "x \<notin> wp s" | "in_range ?p PAGE_SIZE x" unfolding w by blast
    then show "\<exists>r\<in>set (pages (after_fault a s)). in_range (addr r) PAGE_SIZE x"
    proof cases
      case 1
      then obtain r where "r \<in> set (pages s)" "in_range (addr r) PAGE_SIZE x"
        using inv \<open>x \<in> M\<close> unfolding log_inv_def by blast
      then show ?thesis unfolding pg by auto
    next
      case 2
      then show ?thesis unfolding pg by auto
    qed
  qed
  have new: "a' \<notin> wp (after_fault a s) \<and> (a' \<in> M \<longrightarrow> data ?r0 ! unat (a' - addr ?r0) = m0 a')"
    if rng: "in_range ?p PAGE_SIZE a'" for a'
  proof
    show "a' \<notin> wp (after_fault a s)" using rng unfolding w by simp
    show "a' \<in> M \<longrightarrow> data ?r0 ! unat (a' - addr ?r0) = m0 a'"
    proof
      assume aM: "a' \<in> M"
      have off: "a' = ?p + of_nat (unat (a' - ?p))" "unat (a' - ?p) < unat PAGE_SIZE"
        using in_range_offset [OF rng] by simp_all
      have "data ?r0 ! unat (a' - addr ?r0) = mem s (?p + of_nat (unat (a' - ?p)))"
        using off(2) by (simp add: load_bytes_nth)
      also have "\<dots> = mem s a'" using off(1) by simp
      finally have cap: "data ?r0 ! unat (a' - addr ?r0) = mem s a'" .
      have "a' \<in> wp s"
      proof (rule ccontr)
        assume "a' \<notin> wp s"
        then obtain r where r: "r \<in> set (pages s)" "in_range (addr r) PAGE_SIZE a'"
          using inv aM unfolding log_inv_def by blast
        have "page_of a' = addr r" by (rule covered_page [OF inv r])
        moreover have "page_of a' = ?p" by (rule in_range_page_of [OF page_of_idem rng])
        ultimately have "page_of a = addr r" by simp
        then have "a \<notin> wp s" by (rule logged_not_wp [OF inv r(1)])
        then show False using a by simp
      qed
      then have "mem s a' = m0 a'" using inv aM unfolding log_inv_def by blast
      then show "data ?r0 ! unat (a' - addr ?r0) = m0 a'" using cap by simp
    qed
  qed
  have c3: "\<forall>r\<in>set (pages (after_fault a s)).
              page_of (addr r) = addr r \<and> length (data r) = unat PAGE_SIZE \<and>
              (\<forall>a'. in_range (addr r) PAGE_SIZE a' \<longrightarrow>
                 a' \<notin> wp (after_fault a s) \<and> (a' \<in> M \<longrightarrow> data r ! unat (a' - addr r) = m0 a'))"
  proof
    fix r assume "r \<in> set (pages (after_fault a s))"
    then consider "r \<in> set (pages s)" | "r = ?r0" unfolding pg by auto
    then show "page_of (addr r) = addr r \<and> length (data r) = unat PAGE_SIZE \<and>
              (\<forall>a'. in_range (addr r) PAGE_SIZE a' \<longrightarrow>
                 a' \<notin> wp (after_fault a s) \<and> (a' \<in> M \<longrightarrow> data r ! unat (a' - addr r) = m0 a'))"
    proof cases
      case 1
      then show ?thesis using inv unfolding log_inv_def w by blast
    next
      case 2
      have "page_of (addr r) = addr r" unfolding 2 by (simp add: page_of_idem)
      moreover have "length (data r) = unat PAGE_SIZE" unfolding 2 by (simp add: load_bytes_length)
      moreover have "\<forall>a'. in_range (addr r) PAGE_SIZE a' \<longrightarrow>
                 a' \<notin> wp (after_fault a s) \<and> (a' \<in> M \<longrightarrow> data r ! unat (a' - addr r) = m0 a')"
        unfolding 2 using new by simp
      ultimately show ?thesis by blast
    qed
  qed
  show ?thesis unfolding log_inv_def using c1 c2 c3 by blast
qed

lemma log_inv_store:
  assumes "log_inv M m0 s" and "a \<notin> wp s"
  shows "log_inv M m0 (s\<lparr>mem := (mem s)(a := v)\<rparr>)"
  using assms unfolding log_inv_def by auto

lemma after_fault_released: "a \<notin> wp (after_fault a s)"
  using page_of_in_range [of a] by (simp add: after_fault_def)

lemma target_write_cases:
  assumes "target_write K (a, v) s = Inr s'"
  shows "(a \<notin> wp s \<and> s' = s\<lparr>mem := (mem s)(a := v)\<rparr>) \<or>
         (a \<in> wp s \<and> n_pages s < MAX_PAGES \<and> s' = (after_fault a s)\<lparr>mem := (mem (after_fault a s))(a := v)\<rparr>)"
proof (cases "a \<in> wp s")
  case False
  then show ?thesis using assms by (simp add: target_write_def)
next
  case True
  then obtain s1 where s1: "uffd_monitor_step (wp_fault_event K a) s = Inr s1"
    and s': "s' = s1\<lparr>mem := (mem s1)(a := v)\<rparr>"
    using assms by (auto simp: target_write_def split: sum.splits)
  have "s1 = after_fault a s \<and> n_pages s < MAX_PAGES"
    using fault_step_cases [OF s1] by (simp add: after_fault_def)
  then show ?thesis using True s' by simp
qed

lemma log_inv_target_write:
  assumes "target_write K w s = Inr s'" and "log_inv M m0 s"
  shows "log_inv M m0 s'"
proof -
  obtain a v where w: "w = (a, v)" by (cases w)
  from target_write_cases [OF assms(1) [unfolded w]] show ?thesis
  proof
    assume "a \<notin> wp s \<and> s' = s\<lparr>mem := (mem s)(a := v)\<rparr>"
    then show ?thesis using log_inv_store [OF assms(2)] by simp
  next
    assume h: "a \<in> wp s \<and> n_pages s < MAX_PAGES \<and>
      s' = (after_fault a s)\<lparr>mem := (mem (after_fault a s))(a := v)\<rparr>"
    then have "log_inv M m0 (after_fault a s)" using log_inv_fault [OF assms(2)] by simp
    then show ?thesis using h log_inv_store after_fault_released by simp
  qed
qed

lemma count_inv_target_write:
  assumes tw: "target_write K w s = Inr s'" and li: "log_inv M m0 s"
    and ci: "count_inv M W s" and wW: "fst w \<in> W"
  shows "count_inv M W s'"
proof -
  obtain a v where w: "w = (a, v)" by (cases w)
  from target_write_cases [OF tw [unfolded w]] show ?thesis
  proof
    assume "a \<notin> wp s \<and> s' = s\<lparr>mem := (mem s)(a := v)\<rparr>"
    then show ?thesis using ci by (simp add: count_inv_def)
  next
    assume h: "a \<in> wp s \<and> n_pages s < MAX_PAGES \<and>
      s' = (after_fault a s)\<lparr>mem := (mem (after_fault a s))(a := v)\<rparr>"
    have fresh: "page_of a \<notin> addr ` set (pages s)"
      using logged_not_wp [OF li] h by force
    have "a \<in> W \<inter> M" using wW w h ci by (auto simp: count_inv_def)
    then have "page_of a \<in> page_of ` (W \<inter> M)" by (rule imageI)
    then show ?thesis using h ci fresh
      by (auto simp: count_inv_def after_fault_def)
  qed
qed

lemma target_write_total:
  assumes li: "log_inv M m0 s" and ci: "count_inv M W s" and wW: "fst w \<in> W"
    and fin: "finite W" and cap: "card (page_of ` (W \<inter> M)) \<le> MAX_PAGES"
    and K: "\<forall>p. K (UFFDIO_WRITEPROTECT p PAGE_SIZE 0) \<noteq> - 1"
  shows "\<exists>s'. target_write K w s = Inr s'"
proof (cases "fst w \<in> wp s")
  case False
  then show ?thesis by (simp add: target_write_def)
next
  case True
  let ?P = "page_of ` (W \<inter> M)"
  have finP: "finite ?P" using fin by simp
  have fresh: "page_of (fst w) \<notin> addr ` set (pages s)"
    using logged_not_wp [OF li] True by force
  have "fst w \<in> W \<inter> M" using wW True ci by (auto simp: count_inv_def)
  then have inP: "page_of (fst w) \<in> ?P" by (rule imageI)
  have "addr ` set (pages s) \<subseteq> ?P" using ci by (simp add: count_inv_def)
  then have "addr ` set (pages s) \<subseteq> ?P - {page_of (fst w)}"
    using fresh by blast
  then have "card (addr ` set (pages s)) \<le> card (?P - {page_of (fst w)})"
    using finP by (intro card_mono) auto
  also have "\<dots> < card ?P" using finP inP by (intro card_Diff1_less)
  finally have "card (addr ` set (pages s)) < MAX_PAGES" using cap by simp
  moreover have "card (addr ` set (pages s)) = n_pages s"
    using ci distinct_card [of "map addr (pages s)"] by (simp add: count_inv_def)
  ultimately have room: "n_pages s < MAX_PAGES" by simp
  have "K (UFFDIO_WRITEPROTECT (page_of (fst w)) PAGE_SIZE 0) \<noteq> - 1" using K by blast
  then show ?thesis using True fault_step [OF _ room, of K "fst w"]
    by (simp add: target_write_def)
qed

lemma fold_restore:
  assumes "\<forall>r\<in>set ps. length (data r) = unat PAGE_SIZE \<and>
             (\<forall>a. in_range (addr r) PAGE_SIZE a \<longrightarrow> a \<in> M \<longrightarrow> data r ! unat (a - addr r) = m0 a)"
    and "x \<in> M"
  shows "fold (\<lambda>cur_page m. store_bytes (addr cur_page) (take (unat PAGE_SIZE) (data cur_page)) m) ps m x =
         (if \<exists>r\<in>set ps. in_range (addr r) PAGE_SIZE x then m0 x else m x)"
  using assms
proof (induction ps arbitrary: m)
  case Nil
  then show ?case by simp
next
  case (Cons r ps)
  have len: "length (data r) = unat PAGE_SIZE" using Cons.prems(1) by simp
  have val: "in_range (addr r) PAGE_SIZE x \<Longrightarrow> data r ! unat (x - addr r) = m0 x"
    using Cons.prems by simp
  have IH: "fold (\<lambda>cur_page m. store_bytes (addr cur_page) (take (unat PAGE_SIZE) (data cur_page)) m) ps
              (store_bytes (addr r) (take (unat PAGE_SIZE) (data r)) m) x =
            (if \<exists>r\<in>set ps. in_range (addr r) PAGE_SIZE x then m0 x
             else store_bytes (addr r) (take (unat PAGE_SIZE) (data r)) m x)"
    by (rule Cons.IH) (use Cons.prems in auto)
  show ?case using IH val by (simp add: restore_one [OF len])
qed

lemma restore_pages_clean:
  assumes "log_inv M m0 s" and "x \<in> M"
  shows "mem (restore_pages s) x = m0 x"
proof -
  have rec: "\<forall>r\<in>set (pages s). length (data r) = unat PAGE_SIZE \<and>
             (\<forall>a. in_range (addr r) PAGE_SIZE a \<longrightarrow> a \<in> M \<longrightarrow> data r ! unat (a - addr r) = m0 a)"
    using assms(1) unfolding log_inv_def by blast
  have "mem (restore_pages s) x =
        (if \<exists>r\<in>set (pages s). in_range (addr r) PAGE_SIZE x then m0 x else mem s x)"
    unfolding restore_pages_def using fold_restore [OF rec assms(2)] by simp
  moreover have "mem s x = m0 x" if "\<not> (\<exists>r\<in>set (pages s). in_range (addr r) PAGE_SIZE x)"
    using that assms unfolding log_inv_def by blast
  ultimately show ?thesis by auto
qed

lemma log_inv_restore:
  assumes "log_inv M m0 s"
  shows "log_inv M m0 (restore_pages s)"
proof -
  have "pages (restore_pages s) = pages s" "wp (restore_pages s) = wp s"
    by (simp_all add: restore_pages_def)
  then show ?thesis
    using assms restore_pages_clean [OF assms] unfolding log_inv_def by simp
qed

lemma log_inv_run_target:
  "run_target K ws s = Inr s' \<Longrightarrow> log_inv M m0 s \<Longrightarrow> log_inv M m0 s'"
proof (induction ws arbitrary: s)
  case Nil
  then show ?case by simp
next
  case (Cons w ws)
  then obtain s1 where s1: "target_write K w s = Inr s1" and rest: "run_target K ws s1 = Inr s'"
    by (auto split: sum.splits)
  show ?case using Cons.IH [OF rest] log_inv_target_write [OF s1 Cons.prems(2)] by simp
qed

lemma count_inv_run_target:
  "run_target K ws s = Inr s' \<Longrightarrow> log_inv M m0 s \<Longrightarrow> count_inv M W s \<Longrightarrow> fst ` set ws \<subseteq> W
   \<Longrightarrow> count_inv M W s'"
proof (induction ws arbitrary: s)
  case Nil
  then show ?case by simp
next
  case (Cons w ws)
  then obtain s1 where s1: "target_write K w s = Inr s1" and rest: "run_target K ws s1 = Inr s'"
    by (auto split: sum.splits)
  have "log_inv M m0 s1" by (rule log_inv_target_write [OF s1 Cons.prems(2)])
  moreover have "count_inv M W s1"
    by (rule count_inv_target_write [OF s1 Cons.prems(2,3)]) (use Cons.prems(4) in simp)
  ultimately show ?case using Cons.IH [OF rest] Cons.prems(4) by simp
qed

lemma run_target_total:
  assumes fin: "finite W" and cap: "card (page_of ` (W \<inter> M)) \<le> MAX_PAGES"
    and K: "\<forall>p. K (UFFDIO_WRITEPROTECT p PAGE_SIZE 0) \<noteq> - 1"
  shows "log_inv M m0 s \<Longrightarrow> count_inv M W s \<Longrightarrow> fst ` set ws \<subseteq> W \<Longrightarrow> \<exists>s'. run_target K ws s = Inr s'"
proof (induction ws arbitrary: s)
  case Nil
  then show ?case by simp
next
  case (Cons w ws)
  have wW: "fst w \<in> W" using Cons.prems(3) by simp
  obtain s1 where s1: "target_write K w s = Inr s1"
    using target_write_total [OF Cons.prems(1,2) wW fin cap K] by blast
  have "log_inv M m0 s1" by (rule log_inv_target_write [OF s1 Cons.prems(1)])
  moreover have "count_inv M W s1"
    by (rule count_inv_target_write [OF s1 Cons.prems(1,2) wW])
  moreover have "fst ` set ws \<subseteq> W" using Cons.prems(3) by simp
  ultimately have "\<exists>s'. run_target K ws s1 = Inr s'" by (rule Cons.IH)
  then show ?case using s1 by simp
qed

lemma log_inv_cong:
  "mem s' = mem s \<Longrightarrow> wp s' = wp s \<Longrightarrow> pages s' = pages s \<Longrightarrow> log_inv M m0 s' = log_inv M m0 s"
  by (simp add: log_inv_def)

lemma count_inv_cong:
  "wp s' = wp s \<Longrightarrow> pages s' = pages s \<Longrightarrow> count_inv M W s' = count_inv M W s"
  by (simp add: count_inv_def)

lemma run_iteration_cases:
  assumes "run_iteration K i it s = Inr s'"
  shows "\<exists>s1. run_target K (writes it) s = Inr s1 \<and>
           mem s' = mem (restore_pages s1) \<and> wp s' = wp s1 \<and> pages s' = pages s1 \<and>
           uffd_calls s' = uffd_calls s1 \<and> maps s' = maps s1"
  using assms
  by (auto simp: run_iteration_def Let_def elapse_def restore_pages_def split: sum.splits)

lemma run_iteration_inv:
  assumes ri: "run_iteration K i it s = Inr s'" and li: "log_inv M m0 s" and ci: "count_inv M W s"
    and wr: "fst ` set (writes it) \<subseteq> W"
  shows "log_inv M m0 s' \<and> count_inv M W s' \<and> (\<forall>a\<in>M. mem s' a = m0 a)"
proof -
  obtain s1 where s1: "run_target K (writes it) s = Inr s1"
    and eqs: "mem s' = mem (restore_pages s1)" "wp s' = wp s1" "pages s' = pages s1"
    using run_iteration_cases [OF ri] by blast
  have l1: "log_inv M m0 s1" by (rule log_inv_run_target [OF s1 li])
  have c1: "count_inv M W s1" by (rule count_inv_run_target [OF s1 li ci wr])
  have rp: "wp (restore_pages s1) = wp s1" "pages (restore_pages s1) = pages s1"
    by (simp_all add: restore_pages_def)
  have "log_inv M m0 s' = log_inv M m0 (restore_pages s1)"
    by (rule log_inv_cong) (simp_all add: eqs rp)
  then have "log_inv M m0 s'" using log_inv_restore [OF l1] by simp
  moreover have "count_inv M W s' = count_inv M W s1"
    by (rule count_inv_cong) (simp_all add: eqs)
  moreover have "\<forall>a\<in>M. mem s' a = m0 a"
    using restore_pages_clean [OF l1] eqs(1) by simp
  ultimately show ?thesis using c1 by simp
qed

lemma run_iteration_total:
  assumes fin: "finite W" and cap: "card (page_of ` (W \<inter> M)) \<le> MAX_PAGES"
    and K: "\<forall>p. K (UFFDIO_WRITEPROTECT p PAGE_SIZE 0) \<noteq> - 1"
    and li: "log_inv M m0 s" and ci: "count_inv M W s" and wr: "fst ` set (writes it) \<subseteq> W"
  shows "\<exists>s'. run_iteration K i it s = Inr s'"
proof -
  obtain s1 where "run_target K (writes it) s = Inr s1"
    using run_target_total [OF fin cap K li ci wr] by blast
  then show ?thesis by (simp add: run_iteration_def Let_def)
qed

lemma written_Cons: "written (it # its) = fst ` set (writes it) \<union> written its"
  by (auto simp: written_def)

lemma written_append: "written (its @ its') = written its \<union> written its'"
  by (auto simp: written_def)

lemma finite_written: "finite (written its)"
  by (simp add: written_def)

lemma run_loop_inv:
  "run_loop K i its s = Inr s' \<Longrightarrow> log_inv M m0 s \<Longrightarrow> count_inv M W s \<Longrightarrow> written its \<subseteq> W
   \<Longrightarrow> (\<forall>a\<in>M. mem s a = m0 a)
   \<Longrightarrow> log_inv M m0 s' \<and> count_inv M W s' \<and> (\<forall>a\<in>M. mem s' a = m0 a)"
proof (induction its arbitrary: i s)
  case Nil
  then show ?case by simp
next
  case (Cons it its)
  then obtain s1 where s1: "run_iteration K i it s = Inr s1"
    and rest: "run_loop K (Suc i) its s1 = Inr s'"
    by (auto split: sum.splits)
  have w1: "fst ` set (writes it) \<subseteq> W" and w2: "written its \<subseteq> W"
    using Cons.prems(4) by (simp_all add: written_Cons)
  have "log_inv M m0 s1 \<and> count_inv M W s1 \<and> (\<forall>a\<in>M. mem s1 a = m0 a)"
    by (rule run_iteration_inv [OF s1 Cons.prems(2,3) w1])
  then show ?case using Cons.IH [OF rest _ _ w2] by blast
qed

lemma run_loop_total:
  assumes fin: "finite W" and cap: "card (page_of ` (W \<inter> M)) \<le> MAX_PAGES"
    and K: "\<forall>p. K (UFFDIO_WRITEPROTECT p PAGE_SIZE 0) \<noteq> - 1"
  shows "log_inv M m0 s \<Longrightarrow> count_inv M W s \<Longrightarrow> written its \<subseteq> W
         \<Longrightarrow> \<exists>s'. run_loop K i its s = Inr s'"
proof (induction its arbitrary: i s)
  case Nil
  then show ?case by simp
next
  case (Cons it its)
  have w1: "fst ` set (writes it) \<subseteq> W" and w2: "written its \<subseteq> W"
    using Cons.prems(3) by (simp_all add: written_Cons)
  obtain s1 where s1: "run_iteration K i it s = Inr s1"
    using run_iteration_total [OF fin cap K Cons.prems(1,2) w1] by blast
  have "log_inv M m0 s1 \<and> count_inv M W s1 \<and> (\<forall>a\<in>M. mem s1 a = m0 a)"
    by (rule run_iteration_inv [OF s1 Cons.prems(1,2) w1])
  then have "\<exists>s'. run_loop K (Suc i) its s1 = Inr s'"
    using Cons.IH [OF _ _ w2] by blast
  then show ?case using s1 by simp
qed

lemma initial_inv:
  assumes "pages s0 = []"
  shows "log_inv (wp s0) (mem s0) s0 \<and> count_inv (wp s0) W s0"
  using assms by (simp add: log_inv_def count_inv_def)

lemma restore_general:
  assumes empty: "pages s0 = []"
    and K: "\<forall>p. K (UFFDIO_WRITEPROTECT p PAGE_SIZE 0) \<noteq> - 1"
    and cap: "card (page_of ` (written (its @ [it]) \<inter> wp s0)) \<le> MAX_PAGES"
  shows "\<exists>s1 s2. run_loop K 0 its s0 = Inr s1 \<and> run_iteration K (length its) it s1 = Inr s2 \<and>
           (\<forall>a\<in>wp s0. mem s2 a = mem s1 a)"
proof -
  let ?W = "written (its @ [it])"
  let ?M = "wp s0"
  let ?m0 = "mem s0"
  have fin: "finite ?W" by (rule finite_written)
  have li: "log_inv ?M ?m0 s0" and ci: "count_inv ?M ?W s0"
    using initial_inv [OF empty] by simp_all
  have w1: "written its \<subseteq> ?W" and w2: "fst ` set (writes it) \<subseteq> ?W"
    by (auto simp: written_append written_Cons)
  obtain s1 where s1: "run_loop K 0 its s0 = Inr s1"
    using run_loop_total [OF fin cap K li ci w1] by blast
  have i1: "log_inv ?M ?m0 s1 \<and> count_inv ?M ?W s1 \<and> (\<forall>a\<in>?M. mem s1 a = ?m0 a)"
    by (rule run_loop_inv [OF s1 li ci w1]) simp
  obtain s2 where s2: "run_iteration K (length its) it s1 = Inr s2"
    using run_iteration_total [OF fin cap K _ _ w2] i1 by blast
  have "\<forall>a\<in>?M. mem s2 a = ?m0 a"
    using run_iteration_inv [OF s2 _ _ w2] i1 by blast
  then have "\<forall>a\<in>?M. mem s2 a = mem s1 a" using i1 by simp
  then show ?thesis using s1 s2 by blast
qed

lemma uffd_monitor_init_result:
  "uffd_monitor_init K ms s = Inr s0 \<Longrightarrow>
   pages s0 = pages s \<and> mem s0 = mem s \<and> wp s0 = wp s \<union> monitored ms \<and> times s0 = times s \<and> now s0 = now s"
proof (induction ms arbitrary: s)
  case Nil
  then show ?case by (simp add: monitored_def)
next
  case (Cons m ms)
  let ?s1 = "s\<lparr>uffd_calls := uffd_calls s @ [UFFDIO_WRITEPROTECT (addr_start m) (addr_end m - addr_start m) UFFDIO_WRITEPROTECT_MODE_WP],
               wp := wp s \<union> {a. in_range (addr_start m) (addr_end m - addr_start m) a}\<rparr>"
  have "uffd_monitor_init K ms ?s1 = Inr s0"
    using Cons.prems
    by (simp add: Let_def uffdio_writeprotect_def UFFDIO_WRITEPROTECT_MODE_WP_def split: if_splits)
  from Cons.IH [OF this] show ?case by (auto simp: monitored_def)
qed

section \<open>The watcher handles a fault\<close>

lemma same_page_iff: "in_range (page_of x) PAGE_SIZE a \<longleftrightarrow> page_of a = page_of x"
  using in_range_page_of [OF page_of_idem, of x a] page_of_in_range [of a] by auto

lemma target_write_fault:
  assumes "a \<in> wp s" and "K (UFFDIO_WRITEPROTECT (page_of a) PAGE_SIZE 0) \<noteq> - 1" and "n_pages s < MAX_PAGES"
  shows "target_write K (a, v) s = Inr ((after_fault a s)\<lparr>mem := (mem (after_fault a s))(a := v)\<rparr>)"
  using assms(1) fault_step [of K a s, OF assms(2,3)] by (simp add: target_write_def after_fault_def)

lemma target_write_plain:
  assumes "a \<notin> wp s"
  shows "target_write K (a, v) s = Inr (s\<lparr>mem := (mem s)(a := v)\<rparr>)"
  using assms by (simp add: target_write_def)

lemma wp_exact_target_write:
  assumes "target_write K w s = Inr s'"
    and "wp s = M - {x. page_of x \<in> addr ` set (pages s)}"
  shows "wp s' = M - {x. page_of x \<in> addr ` set (pages s')}"
proof -
  obtain a v where w: "w = (a, v)" by (cases w)
  from target_write_cases [OF assms(1) [unfolded w]] show ?thesis
  proof
    assume "a \<notin> wp s \<and> s' = s\<lparr>mem := (mem s)(a := v)\<rparr>"
    then show ?thesis using assms(2) by simp
  next
    assume h: "a \<in> wp s \<and> n_pages s < MAX_PAGES \<and>
      s' = (after_fault a s)\<lparr>mem := (mem (after_fault a s))(a := v)\<rparr>"
    then have "wp s' = wp s - {x. page_of x = page_of a}"
      and "addr ` set (pages s') = insert (page_of a) (addr ` set (pages s))"
      by (auto simp: after_fault_def same_page_iff)
    then show ?thesis using assms(2) by auto
  qed
qed

lemma wp_exact_run_target:
  "run_target K ws s = Inr s' \<Longrightarrow> wp s = M - {x. page_of x \<in> addr ` set (pages s)}
   \<Longrightarrow> wp s' = M - {x. page_of x \<in> addr ` set (pages s')}"
proof (induction ws arbitrary: s)
  case Nil
  then show ?case by simp
next
  case (Cons w ws)
  then obtain s1 where s1: "target_write K w s = Inr s1" and rest: "run_target K ws s1 = Inr s'"
    by (auto split: sum.splits)
  show ?case by (rule Cons.IH [OF rest wp_exact_target_write [OF s1 Cons.prems(2)]])
qed

lemma target_write_log_grows:
  assumes "target_write K w s = Inr s'"
  shows "set (pages s) \<subseteq> set (pages s') \<and>
         (fst w \<in> wp s \<longrightarrow> page_of (fst w) \<in> addr ` set (pages s'))"
proof -
  obtain a v where w: "w = (a, v)" by (cases w)
  from target_write_cases [OF assms(1) [unfolded w]] show ?thesis
    by (auto simp: after_fault_def w)
qed

lemma run_target_log_grows:
  "run_target K ws s = Inr s' \<Longrightarrow> set (pages s) \<subseteq> set (pages s')"
proof (induction ws arbitrary: s)
  case Nil
  then show ?case by simp
next
  case (Cons w ws)
  then obtain s1 where s1: "target_write K w s = Inr s1" and rest: "run_target K ws s1 = Inr s'"
    by (auto split: sum.splits)
  show ?case using target_write_log_grows [OF s1] Cons.IH [OF rest] by blast
qed

lemma run_target_logs_written:
  "run_target K ws s = Inr s' \<Longrightarrow> wp s = M - {x. page_of x \<in> addr ` set (pages s)}
   \<Longrightarrow> a \<in> fst ` set ws \<Longrightarrow> a \<in> M \<Longrightarrow> page_of a \<in> addr ` set (pages s')"
proof (induction ws arbitrary: s)
  case Nil
  then show ?case by simp
next
  case (Cons w ws)
  then obtain s1 where s1: "target_write K w s = Inr s1" and rest: "run_target K ws s1 = Inr s'"
    by (auto split: sum.splits)
  have ex1: "wp s1 = M - {x. page_of x \<in> addr ` set (pages s1)}"
    by (rule wp_exact_target_write [OF s1 Cons.prems(2)])
  show ?case
  proof (cases "a \<in> fst ` set ws")
    case True
    then show ?thesis by (rule Cons.IH [OF rest ex1 _ Cons.prems(4)])
  next
    case False
    then have a: "a = fst w" using Cons.prems(3) by simp
    have "page_of a \<in> addr ` set (pages s1)"
    proof (cases "a \<in> wp s")
      case True
      then show ?thesis using target_write_log_grows [OF s1] unfolding a by blast
    next
      case False
      then have "page_of a \<in> addr ` set (pages s)" using Cons.prems(2,4) by blast
      then show ?thesis using target_write_log_grows [OF s1] by blast
    qed
    then show ?thesis using run_target_log_grows [OF rest] by blast
  qed
qed

section \<open>Restoring from a log without repeated pages\<close>

lemma offset_in_range:
  assumes "k < unat len"
  shows "in_range p len (p + of_nat k) \<and> unat (p + of_nat k - p) = k"
proof -
  have "k \<le> unat len" using assms by simp
  then have "unat (of_nat k :: 64 word) = k" by (rule le_unat_uoi)
  then show ?thesis using assms by (simp add: in_range_def word_less_nat_alt)
qed

lemma fold_uncovered:
  "\<forall>r\<in>set ps. length (data r) = unat PAGE_SIZE \<and> \<not> in_range (addr r) PAGE_SIZE x \<Longrightarrow>
   fold (\<lambda>cur_page m. store_bytes (addr cur_page) (take (unat PAGE_SIZE) (data cur_page)) m) ps m x = m x"
proof (induction ps arbitrary: m)
  case Nil
  then show ?case by simp
next
  case (Cons r ps)
  have "length (data r) = unat PAGE_SIZE" "\<not> in_range (addr r) PAGE_SIZE x"
    using Cons.prems by simp_all
  then have "store_bytes (addr r) (take (unat PAGE_SIZE) (data r)) m x = m x"
    using restore_one [of r m x] by simp
  moreover have "fold (\<lambda>cur_page m. store_bytes (addr cur_page) (take (unat PAGE_SIZE) (data cur_page)) m) ps
      (store_bytes (addr r) (take (unat PAGE_SIZE) (data r)) m) x =
      store_bytes (addr r) (take (unat PAGE_SIZE) (data r)) m x"
    by (rule Cons.IH) (use Cons.prems in simp)
  ultimately show ?case by simp
qed

lemma fold_covered:
  "distinct (map addr ps) \<Longrightarrow>
   \<forall>r\<in>set ps. page_of (addr r) = addr r \<and> length (data r) = unat PAGE_SIZE \<Longrightarrow>
   r \<in> set ps \<Longrightarrow> in_range (addr r) PAGE_SIZE x \<Longrightarrow>
   fold (\<lambda>cur_page m. store_bytes (addr cur_page) (take (unat PAGE_SIZE) (data cur_page)) m) ps m x =
   data r ! unat (x - addr r)"
proof (induction ps arbitrary: m)
  case Nil
  then show ?case by simp
next
  case (Cons q ps)
  show ?case
  proof (cases "r \<in> set ps")
    case True
    then show ?thesis using Cons.IH [OF _ _ True Cons.prems(4)] Cons.prems(1,2) by simp
  next
    case False
    then have rq: "r = q" using Cons.prems(3) by simp
    have px: "page_of x = addr q"
      using in_range_page_of [of "addr q" x] Cons.prems(2,4) rq by simp
    have "\<forall>r'\<in>set ps. length (data r') = unat PAGE_SIZE \<and> \<not> in_range (addr r') PAGE_SIZE x"
    proof
      fix r' assume r': "r' \<in> set ps"
      have "addr r' \<in> addr ` set ps" using r' by (rule imageI)
      moreover have "addr q \<notin> addr ` set ps" using Cons.prems(1) by simp
      ultimately have "addr r' \<noteq> addr q" by metis
      moreover have "page_of (addr r') = addr r'" using Cons.prems(2) r' by simp
      ultimately have "\<not> in_range (addr r') PAGE_SIZE x"
        using in_range_page_of [of "addr r'" x] px by auto
      then show "length (data r') = unat PAGE_SIZE \<and> \<not> in_range (addr r') PAGE_SIZE x"
        using Cons.prems(2) r' by simp
    qed
    then have "fold (\<lambda>cur_page m. store_bytes (addr cur_page) (take (unat PAGE_SIZE) (data cur_page)) m) ps
                 (store_bytes (addr q) (take (unat PAGE_SIZE) (data q)) m) x =
               store_bytes (addr q) (take (unat PAGE_SIZE) (data q)) m x"
      by (rule fold_uncovered)
    moreover have "length (data q) = unat PAGE_SIZE" using Cons.prems(2) by simp
    ultimately show ?thesis using Cons.prems(4) rq restore_one [of q m x] by simp
  qed
qed

lemma reachable_inv:
  assumes "pages s0 = []" and "run_loop K 0 its s0 = Inr s1" and "run_target K ws s1 = Inr s"
  shows "log_inv (wp s0) (mem s0) s \<and> count_inv (wp s0) UNIV s \<and> (\<forall>a\<in>wp s0. mem s1 a = mem s0 a)"
proof -
  have li: "log_inv (wp s0) (mem s0) s0" and ci: "count_inv (wp s0) UNIV s0"
    using initial_inv [OF assms(1)] by simp_all
  have i1: "log_inv (wp s0) (mem s0) s1 \<and> count_inv (wp s0) UNIV s1 \<and> (\<forall>a\<in>wp s0. mem s1 a = mem s0 a)"
    by (rule run_loop_inv [OF assms(2) li ci]) simp_all
  then have "log_inv (wp s0) (mem s0) s" using log_inv_run_target [OF assms(3)] by blast
  moreover have "count_inv (wp s0) UNIV s"
    using count_inv_run_target [OF assms(3)] i1 by blast
  ultimately show ?thesis using i1 by blast
qed

lemma card_written_le:
  "card (page_of ` (written its \<inter> M)) \<le> length (concat (map writes its))"
proof -
  have "card (page_of ` (written its \<inter> M)) \<le> card (written its)"
    by (meson card_image_le card_mono finite_written finite_Int inf_le1 le_trans)
  also have "\<dots> \<le> card (set (concat (map writes its)))"
    unfolding written_def by (rule card_image_le) simp
  also have "\<dots> \<le> length (concat (map writes its))" by (rule card_length)
  finally show ?thesis .
qed

section \<open>The sample runs\<close>

lemma armed_facts: "pages armed = []" "wp armed = monitored [big_region]"
  by (simp_all add: armed_def zero_state_def)

lemma in_big_region: "(a \<in> monitored [big_region]) = (a - 0x10000000 < 0x2000000)"
  by (simp add: monitored_def big_region_def in_range_def)

lemma first_iteration_log: "\<exists>s1. run_target (\<lambda>_. 0) (writes two_stores) armed = Inr s1 \<and> map addr (pages s1) = [0x10000000]"
  apply (simp add: two_stores_def armed_def zero_state_def target_write_def in_big_region fault_step MAX_PAGES_def
    page_of_def PAGE_SIZE_def in_range_def)
  done

lemma two_runs:
  "\<exists>s1 s. run_loop (\<lambda>_. 0) 0 [two_stores] armed = Inr s1 \<and>
          run_target (\<lambda>_. 0) (writes one_store) s1 = Inr s \<and>
          map addr (pages s1) = [0x10000000] \<and>
          map addr (pages s) = [0x10000000, 0x10001000] \<and>
          uffd_calls s1 = [UFFDIO_WRITEPROTECT 0x10000000 PAGE_SIZE 0] \<and>
          0x10000000 \<notin> wp s1 \<and> times s1 0 = 12"
  by (simp add: two_stores_def one_store_def armed_def zero_state_def target_write_def in_big_region
      fault_step MAX_PAGES_def page_of_def in_range_def run_iteration_def Let_def elapse_def
      restore_pages_def timespecDiff_def PAGE_SIZE_def)

lemma unat_touch_addr: "k \<le> 4096 \<Longrightarrow> unat (touch_addr k) = 268435456 + k * 4096"
  by (simp add: touch_addr_def PAGE_SIZE_def unat_word_ariths unat_of_nat)

lemma touch_addr_inj:
  assumes "k \<le> 4096" and "j \<le> 4096" and "touch_addr k = touch_addr j"
  shows "k = j"
proof -
  have "unat (touch_addr k) = unat (touch_addr j)" using assms(3) by (rule arg_cong)
  then have "268435456 + k * 4096 = 268435456 + j * (4096::nat)"
    by (simp only: unat_touch_addr [OF assms(1)] unat_touch_addr [OF assms(2)])
  then show ?thesis by arith
qed

lemma aligned_page_of:
  assumes "2 ^ 12 dvd x"
  shows "page_of x = x"
proof -
  have "x AND mask 12 = 0"
    using assms by (simp add: take_bit_eq_0_iff flip: take_bit_eq_mask)
  then show ?thesis using split_page [of x] by (simp add: page_of_def page_mask)
qed

lemma page_of_touch_addr: "page_of (touch_addr k) = touch_addr k"
proof (rule aligned_page_of)
  have "(2 ^ 12 :: 64 word) dvd 0x10000000" by (rule dvdI [of _ _ "2 ^ 16"]) simp
  moreover have "(2 ^ 12 :: 64 word) dvd of_nat k * PAGE_SIZE" by (simp add: PAGE_SIZE_def)
  ultimately show "2 ^ 12 dvd touch_addr k" unfolding touch_addr_def by (rule dvd_add)
qed

lemma touch_addr_monitored: "k \<le> 4096 \<Longrightarrow> touch_addr k \<in> monitored [big_region]"
proof -
  assume k: "k \<le> 4096"
  have "touch_addr k - 0x10000000 = of_nat k * PAGE_SIZE" by (simp add: touch_addr_def)
  moreover have "unat (of_nat k * PAGE_SIZE :: 64 word) = k * 4096"
    using k by (simp add: PAGE_SIZE_def unat_word_ariths unat_of_nat)
  ultimately have "unat (touch_addr k - 0x10000000) < unat (0x2000000 :: 64 word)"
    using k by simp
  then show ?thesis
    by (simp add: monitored_def big_region_def in_range_def word_less_nat_alt)
qed

lemma written_fill_log: "written [fill_log] = touch_addr ` {0..<MAX_PAGES}"
  by (auto simp: written_def fill_log_def touch_pages_def image_image)

lemma written_one_more: "written [one_more] = {touch_addr MAX_PAGES}"
  by (simp add: written_def one_more_def)

lemma fill_log_pages: "page_of ` (written [fill_log] \<inter> wp armed) = touch_addr ` {0..<MAX_PAGES}"
proof -
  have "written [fill_log] \<inter> wp armed = touch_addr ` {0..<MAX_PAGES}"
    using touch_addr_monitored by (auto simp: written_fill_log armed_def MAX_PAGES_def)
  then show ?thesis by (simp add: image_image page_of_touch_addr)
qed

lemma card_touched: "card (touch_addr ` {0..<MAX_PAGES}) = MAX_PAGES"
proof -
  have "inj_on touch_addr {0..<MAX_PAGES}"
    by (rule inj_onI) (auto simp: MAX_PAGES_def intro: touch_addr_inj)
  then show ?thesis by (simp add: card_image)
qed

lemma fill_log_restored:
  "\<exists>s1. run_loop (\<lambda>_. 0) 0 [fill_log] armed = Inr s1 \<and> n_pages s1 = MAX_PAGES \<and>
        touch_addr MAX_PAGES \<in> wp s1"
proof -
  let ?K = "\<lambda>_::uffd_ioctl. 0::int"
  let ?W = "written [fill_log]"
  let ?M = "wp armed"
  let ?T = "touch_addr ` {0..<MAX_PAGES}"
  have fin: "finite ?W" by (rule finite_written)
  have cap: "card (page_of ` (?W \<inter> ?M)) \<le> MAX_PAGES"
    by (simp add: fill_log_pages card_touched)
  have K: "\<forall>p. ?K (UFFDIO_WRITEPROTECT p PAGE_SIZE 0) \<noteq> - 1" by simp
  have li: "log_inv ?M (mem armed) armed" and ci: "count_inv ?M ?W armed"
    using initial_inv [OF armed_facts(1)] by simp_all
  obtain s1 where s1: "run_loop ?K 0 [fill_log] armed = Inr s1"
    using run_loop_total [OF fin cap K li ci subset_refl] by blast
  then have it: "run_iteration ?K 0 fill_log armed = Inr s1" by (simp split: sum.splits)
  obtain t where t: "run_target ?K (writes fill_log) armed = Inr t"
    and eqs: "wp s1 = wp t" "pages s1 = pages t"
    using run_iteration_cases [OF it] by blast
  have ex0: "wp armed = ?M - {x. page_of x \<in> addr ` set (pages armed)}"
    by (simp add: armed_facts)
  have ex: "wp t = ?M - {x. page_of x \<in> addr ` set (pages t)}"
    by (rule wp_exact_run_target [OF t ex0])
  have ct: "count_inv ?M ?W t"
    by (rule count_inv_run_target [OF t li ci]) (simp add: written_def)
  have upper: "addr ` set (pages t) \<subseteq> ?T"
    using ct by (simp add: count_inv_def fill_log_pages)
  have lower: "?T \<subseteq> addr ` set (pages t)"
  proof
    fix p assume "p \<in> ?T"
    then obtain k where k: "k < MAX_PAGES" "p = touch_addr k" by auto
    have "p \<in> fst ` set (writes fill_log)"
      using k by (auto simp: fill_log_def touch_pages_def image_image)
    moreover have "p \<in> ?M"
      using k touch_addr_monitored [of k] by (simp add: armed_facts MAX_PAGES_def)
    ultimately have "page_of p \<in> addr ` set (pages t)"
      by (rule run_target_logs_written [OF t ex0])
    then show "p \<in> addr ` set (pages t)" by (simp add: k(2) page_of_touch_addr)
  qed
  have "addr ` set (pages t) = ?T" using upper lower by blast
  moreover have "card (addr ` set (pages t)) = n_pages t"
    using ct distinct_card [of "map addr (pages t)"] by (simp add: count_inv_def)
  ultimately have n: "n_pages t = MAX_PAGES" by (simp add: card_touched)
  have "touch_addr MAX_PAGES \<notin> ?T"
  proof
    assume "touch_addr MAX_PAGES \<in> ?T"
    then obtain k where k: "k < MAX_PAGES" "touch_addr MAX_PAGES = touch_addr k" by auto
    have "MAX_PAGES = k"
      by (rule touch_addr_inj [OF _ _ k(2)]) (use k(1) in \<open>simp_all add: MAX_PAGES_def\<close>)
    then show False using k(1) by simp
  qed
  then have "page_of (touch_addr MAX_PAGES) \<notin> addr ` set (pages t)"
    using upper by (auto simp: page_of_touch_addr)
  moreover have "touch_addr MAX_PAGES \<in> ?M"
    using touch_addr_monitored [of MAX_PAGES] by (simp add: armed_facts MAX_PAGES_def)
  ultimately have "touch_addr MAX_PAGES \<in> wp t" using ex by blast
  then show ?thesis using s1 n eqs by simp
qed

section \<open>The clock\<close>

lemma run_target_clock:
  "run_target K ws s = Inr s' \<Longrightarrow> now s' = now s \<and> times s' = times s"
proof (induction ws arbitrary: s)
  case Nil
  then show ?case by simp
next
  case (Cons w ws)
  then obtain s1 where s1: "target_write K w s = Inr s1" and rest: "run_target K ws s1 = Inr s'"
    by (auto split: sum.splits)
  obtain a v where w: "w = (a, v)" by (cases w)
  have "now s1 = now s \<and> times s1 = times s"
    using target_write_cases [OF s1 [unfolded w]] by (auto simp: after_fault_def)
  then show ?case using Cons.IH [OF rest] by simp
qed

lemma run_iteration_times:
  assumes "run_iteration K i it s = Inr s'"
  shows "times s' = (times s)(i := int (target_ns it) + int (restore_ns it))"
proof -
  obtain s1 where s1: "run_target K (writes it) s = Inr s1"
    using assms by (auto simp: run_iteration_def split: sum.splits)
  have "now s1 = now s" "times s1 = times s" using run_target_clock [OF s1] by simp_all
  then show ?thesis
    using assms s1
    by (auto simp: run_iteration_def Let_def elapse_def restore_pages_def timespecDiff_def)
qed

lemma run_loop_times:
  "run_loop K i its s = Inr s' \<Longrightarrow>
   (\<forall>j<length its. times s' (i + j) = int (target_ns (its ! j)) + int (restore_ns (its ! j))) \<and>
   (\<forall>k. k < i \<or> i + length its \<le> k \<longrightarrow> times s' k = times s k)"
proof (induction its arbitrary: i s)
  case Nil
  then show ?case by simp
next
  case (Cons it its)
  then obtain s1 where s1: "run_iteration K i it s = Inr s1"
    and rest: "run_loop K (Suc i) its s1 = Inr s'"
    by (auto split: sum.splits)
  have t1: "times s1 = (times s)(i := int (target_ns it) + int (restore_ns it))"
    by (rule run_iteration_times [OF s1])
  note IH = Cons.IH [OF rest]
  have a: "times s' (i + j) = int (target_ns ((it # its) ! j)) + int (restore_ns ((it # its) ! j))"
    if "j < length (it # its)" for j
  proof (cases j)
    case 0
    have "times s' i = times s1 i" using IH by simp
    then show ?thesis using t1 0 by simp
  next
    case (Suc j')
    then have "j' < length its" using that by simp
    then have "times s' (Suc i + j') = int (target_ns (its ! j')) + int (restore_ns (its ! j'))"
      using IH by blast
    then show ?thesis using Suc by simp
  qed
  have b: "times s' k = times s k" if "k < i \<or> i + length (it # its) \<le> k" for k
  proof -
    have "k < Suc i \<or> Suc i + length its \<le> k" using that by auto
    then have "times s' k = times s1 k" using IH by blast
    moreover have "k \<noteq> i" using that by auto
    ultimately show ?thesis using t1 by simp
  qed
  show ?case using a b by blast
qed

section \<open>The filter and the remapper\<close>

lemma load_maps_loop_filter:
  "length ms + length (filter (selected L) regions) \<le> MAX_MAPS \<Longrightarrow>
   load_maps_loop L regions ms = Inr (ms @ filter (selected L) regions)"
proof (induction regions arbitrary: ms)
  case Nil
  then show ?case by simp
next
  case (Cons r regions)
  show ?case
  proof (cases "selected L r")
    case True
    then have "load_maps_loop L (r # regions) ms = load_maps_loop L regions (ms @ [r])"
      using Cons.prems by (auto simp: selected_def)
    moreover have "load_maps_loop L regions (ms @ [r]) = Inr ((ms @ [r]) @ filter (selected L) regions)"
      by (rule Cons.IH) (use Cons.prems True in simp)
    ultimately show ?thesis using True by simp
  next
    case False
    then have "load_maps_loop L (r # regions) ms = load_maps_loop L regions ms"
      by (auto simp: selected_def)
    moreover have "load_maps_loop L regions ms = Inr (ms @ filter (selected L) regions)"
      by (rule Cons.IH) (use Cons.prems False in simp)
    ultimately show ?thesis using False by simp
  qed
qed

lemma sample_selected: "filter (selected sample_layout) sample_regions = [big_region]"
  by (simp add: sample_regions_def sample_layout_def selected_def big_region_def)

lemma remap_region_no_munmap: "Syscall NR_munmap args \<notin> set (remap_region cur_map)"
  by (simp add: remap_region_def remap_mmap_def remap_munmap_def remap_mprotect_def
      my_syscall2_def my_syscall3_def my_syscall6_def Let_def NR_mmap_def NR_mprotect_def NR_munmap_def)

lemma remap_no_munmap: "Syscall NR_munmap args \<notin> set (remap ms)"
  by (induction ms) (simp_all add: remap_region_no_munmap)

section \<open>Requests on the fault channel\<close>

lemma uffd_deregister_result:
  "uffd_deregister K ms s = (r, s') \<Longrightarrow>
   (if \<exists>m\<in>set ms. K (UFFDIO_UNREGISTER (addr_start m) (addr_end m - addr_start m)) = - 1
    then r = 1
    else r = 0 \<and> uffd_calls s' = uffd_calls s @
           map (\<lambda>m. UFFDIO_UNREGISTER (addr_start m) (addr_end m - addr_start m)) ms)"
proof (induction ms arbitrary: s)
  case Nil
  then show ?case by simp
next
  case (Cons m ms)
  show ?case
  proof (cases "K (UFFDIO_UNREGISTER (addr_start m) (addr_end m - addr_start m)) = - 1")
    case True
    then show ?thesis using Cons.prems by (simp add: Let_def)
  next
    case False
    then have "uffd_deregister K ms
        (s\<lparr>uffd_calls := uffd_calls s @ [UFFDIO_UNREGISTER (addr_start m) (addr_end m - addr_start m)]\<rparr>)
        = (r, s')"
      using Cons.prems by (simp add: Let_def)
    from Cons.IH [OF this] show ?thesis using False by (auto split: if_splits)
  qed
qed

lemma register_all_no_unregister:
  "uffd_register_all K ms s = (b, s') \<Longrightarrow>
   filter is_unregister (uffd_calls s') = filter is_unregister (uffd_calls s)"
proof (induction ms arbitrary: s)
  case Nil
  then show ?case by simp
next
  case (Cons m ms)
  let ?s1 = "s\<lparr>uffd_calls := uffd_calls s @
      [UFFDIO_REGISTER (addr_start m) (addr_end m - addr_start m) UFFDIO_REGISTER_MODE_WP]\<rparr>"
  show ?case
  proof (cases "K (UFFDIO_REGISTER (addr_start m) (addr_end m - addr_start m) UFFDIO_REGISTER_MODE_WP) = - 1")
    case True
    then have "s' = ?s1" using Cons.prems by (simp add: Let_def)
    then show ?thesis by simp
  next
    case False
    then have "uffd_register_all K ms ?s1 = (b, s')" using Cons.prems by (simp add: Let_def)
    from Cons.IH [OF this] show ?thesis by simp
  qed
qed

lemma setup_no_unregister:
  assumes "uffd_setup e s = (u, s')"
  shows "filter is_unregister (uffd_calls s') = filter is_unregister (uffd_calls s)"
proof -
  let ?s1 = "s\<lparr>uffd_calls := uffd_calls s @ [UFFDIO_API]\<rparr>"
  consider "s' = s" | "s' = ?s1" | b where "uffd_register_all (kernel e) (maps ?s1) ?s1 = (b, s')"
    using assms by (auto simp: uffd_setup_def Let_def split: if_splits prod.splits bool.splits)
  then show ?thesis
  proof cases
    case 1
    then show ?thesis by simp
  next
    case 2
    then show ?thesis by simp
  next
    case 3
    from register_all_no_unregister [OF this] show ?thesis by simp
  qed
qed

lemma monitor_init_no_unregister:
  "uffd_monitor_init K ms s = Inr s' \<Longrightarrow>
   filter is_unregister (uffd_calls s') = filter is_unregister (uffd_calls s)"
proof (induction ms arbitrary: s)
  case Nil
  then show ?case by simp
next
  case (Cons m ms)
  let ?req = "UFFDIO_WRITEPROTECT (addr_start m) (addr_end m - addr_start m) UFFDIO_WRITEPROTECT_MODE_WP"
  let ?s1 = "s\<lparr>uffd_calls := uffd_calls s @ [?req],
               wp := uffdio_writeprotect (addr_start m) (addr_end m - addr_start m)
                       UFFDIO_WRITEPROTECT_MODE_WP (wp s)\<rparr>"
  have "uffd_monitor_init K ms ?s1 = Inr s'"
    using Cons.prems by (simp add: Let_def split: if_splits)
  from Cons.IH [OF this] show ?case by simp
qed

lemma run_target_no_unregister:
  "run_target K ws s = Inr s' \<Longrightarrow>
   filter is_unregister (uffd_calls s') = filter is_unregister (uffd_calls s)"
proof (induction ws arbitrary: s)
  case Nil
  then show ?case by simp
next
  case (Cons w ws)
  then obtain s1 where s1: "target_write K w s = Inr s1" and rest: "run_target K ws s1 = Inr s'"
    by (auto split: sum.splits)
  obtain a v where w: "w = (a, v)" by (cases w)
  have "filter is_unregister (uffd_calls s1) = filter is_unregister (uffd_calls s)"
    using target_write_cases [OF s1 [unfolded w]] by (auto simp: after_fault_def)
  then show ?case using Cons.IH [OF rest] by simp
qed

lemma run_loop_no_unregister:
  "run_loop K i its s = Inr s' \<Longrightarrow>
   filter is_unregister (uffd_calls s') = filter is_unregister (uffd_calls s)"
proof (induction its arbitrary: i s)
  case Nil
  then show ?case by simp
next
  case (Cons it its)
  then obtain s1 where s1: "run_iteration K i it s = Inr s1"
    and rest: "run_loop K (Suc i) its s1 = Inr s'"
    by (auto split: sum.splits)
  obtain t where "run_target K (writes it) s = Inr t" "uffd_calls s1 = uffd_calls t"
    using run_iteration_cases [OF s1] by blast
  then have "filter is_unregister (uffd_calls s1) = filter is_unregister (uffd_calls s)"
    using run_target_no_unregister by simp
  then show ?case using Cons.IH [OF rest] by simp
qed

lemma run_no_unregister:
  assumes "run L e s = Inr (r, s')"
  shows "filter is_unregister (uffd_calls s') = filter is_unregister (uffd_calls s)"
proof -
  obtain r1 s1 where lm: "load_maps L (proc_maps e) s = Inr (r1, s1)"
    using assms by (auto simp: run_def split: sum.splits)
  have u1: "uffd_calls s1 = uffd_calls s"
    using lm by (auto simp: load_maps_def split: option.splits sum.splits)
  show ?thesis
  proof (cases "r1 = 0")
    case False
    then have "s' = s1" using assms lm by (simp add: run_def)
    then show ?thesis using u1 by simp
  next
    case True
    let ?s2 = "s1\<lparr>raw_calls := raw_calls s1 @ remap (maps s1)\<rparr>"
    obtain u s3 where su: "uffd_setup e ?s2 = (u, s3)" by (cases "uffd_setup e ?s2")
    have u3: "filter is_unregister (uffd_calls s3) = filter is_unregister (uffd_calls s)"
      using setup_no_unregister [OF su] u1 by simp
    show ?thesis
    proof (cases "u = 0")
      case True
      then have "s' = s3" using assms lm \<open>r1 = 0\<close> su by (simp add: run_def Let_def)
      then show ?thesis using u3 by simp
    next
      case False
      then obtain s4 where mi: "uffd_monitor_init (kernel e) (maps s3) s3 = Inr s4"
        and rl: "run_loop (kernel e) 0 (iterations e) s4 = Inr s'"
        using assms lm \<open>r1 = 0\<close> su by (auto simp: run_def Let_def split: sum.splits)
      show ?thesis
        using run_loop_no_unregister [OF rl] monitor_init_no_unregister [OF mi] u3 by simp
    qed
  qed
qed

section \<open>The claims\<close>

text \<open>
  Claim C1, as stated, at an explicit run. The log is never cleared, so it has to hold
  the pages of all iterations together. The first iteration dirties exactly \<open>0x1000\<close>
  pages of the region and the second one further page: each count is within the
  capacity of the log, the first iteration completes with a full log, and the fault of
  the second iteration writes the record past the end of \<open>pages\<close>, so that no restored
  state follows.
\<close>

theorem per_iteration_bound_counterexample:
  "pages armed = [] \<and>
   card (page_of ` (written [fill_log] \<inter> wp armed)) \<le> MAX_PAGES \<and>
   card (page_of ` (written [one_more] \<inter> wp armed)) \<le> MAX_PAGES \<and>
   (\<exists>s1. run_loop (\<lambda>_. 0) 0 [fill_log] armed = Inr s1 \<and> n_pages s1 = MAX_PAGES \<and>
         run_iteration (\<lambda>_. 0) 1 one_more s1 = Inl Out_of_bounds)"
proof -
  obtain s1 where s1: "run_loop (\<lambda>_. 0) 0 [fill_log] armed = Inr s1"
    and n: "n_pages s1 = MAX_PAGES" and w: "touch_addr MAX_PAGES \<in> wp s1"
    using fill_log_restored by blast
  have "uffd_monitor_step (wp_fault_event (\<lambda>_. 0) (touch_addr MAX_PAGES)) s1 = Inl Out_of_bounds"
    using n
    by (simp add: uffd_monitor_step_def wp_fault_event_def POLLIN_def POLLERR_def
        sizeof_uffd_msg_def UFFD_PAGEFAULT_FLAG_WP_def UFFD_PAGEFAULT_FLAG_WRITE_def Let_def)
  then have "run_iteration (\<lambda>_. 0) 1 one_more s1 = Inl Out_of_bounds"
    using w by (simp add: run_iteration_def one_more_def target_write_def)
  moreover have "card (page_of ` (written [fill_log] \<inter> wp armed)) \<le> MAX_PAGES"
    by (simp add: fill_log_pages card_touched)
  moreover have "card (page_of ` (written [one_more] \<inter> wp armed)) \<le> MAX_PAGES"
  proof -
    have "card (page_of ` (written [one_more] \<inter> wp armed)) \<le> card (written [one_more])"
      by (meson card_image_le card_mono finite_written finite_Int inf_le1 le_trans)
    then show ?thesis by (simp add: written_one_more MAX_PAGES_def)
  qed
  ultimately show ?thesis using s1 n armed_facts(1) by blast
qed

text \<open>
  Claim C1, amended. The watcher has armed the regions of the table \<open>ms\<close>, the log is
  empty, and the kernel accepts the requests that release a page. If the number of
  distinct monitored pages that the target writes in all iterations up to and including
  the current one is at most the capacity of the log, then the earlier iterations
  complete, the current one completes, and every byte \<open>a\<close> of every monitored region holds
  after the restore step of the current iteration what it held immediately before the
  target was invoked in it. The current iteration is any one of the run, not only the
  first.
\<close>

theorem restore_every_iteration:
  assumes init: "uffd_monitor_init K ms s = Inr s0" and empty: "pages s = []" and none: "wp s = {}"
    and K: "\<forall>p. K (UFFDIO_WRITEPROTECT p PAGE_SIZE 0) \<noteq> - 1"
    and cap: "card (page_of ` (written (its @ [it]) \<inter> monitored ms)) \<le> MAX_PAGES"
    and R: "cur_map \<in> set ms"
    and a: "in_range (addr_start cur_map) (addr_end cur_map - addr_start cur_map) a"
  shows "\<exists>s1 s2. run_loop K 0 its s0 = Inr s1 \<and> run_iteration K (length its) it s1 = Inr s2 \<and>
           mem s2 a = mem s1 a"
proof -
  have s0: "pages s0 = []" "wp s0 = monitored ms"
    using uffd_monitor_init_result [OF init] empty none by simp_all
  have "a \<in> wp s0" using R a by (auto simp: s0 monitored_def)
  moreover have "\<exists>s1 s2. run_loop K 0 its s0 = Inr s1 \<and> run_iteration K (length its) it s1 = Inr s2 \<and>
           (\<forall>a\<in>wp s0. mem s2 a = mem s1 a)"
    by (rule restore_general [OF s0(1) K]) (use cap in \<open>simp add: s0\<close>)
  ultimately show ?thesis by blast
qed

text \<open>
  The theorem at the two short iterations over the sample region.
\<close>

theorem restore_every_iteration_witness:
  "pages zero_state = [] \<and> wp zero_state = {} \<and>
   card (page_of ` (written ([two_stores] @ [one_store]) \<inter> monitored [big_region])) \<le> MAX_PAGES \<and>
   in_range (addr_start big_region) (addr_end big_region - addr_start big_region) 0x10000004 \<and>
   (\<exists>s0 s1 s2. uffd_monitor_init (\<lambda>_. 0) [big_region] zero_state = Inr s0 \<and>
      run_loop (\<lambda>_. 0) 0 [two_stores] s0 = Inr s1 \<and>
      run_iteration (\<lambda>_. 0) (length [two_stores]) one_store s1 = Inr s2 \<and>
      mem s2 0x10000004 = mem s1 0x10000004)"
proof -
  let ?K = "\<lambda>_::uffd_ioctl. 0::int"
  have "\<exists>s0. uffd_monitor_init ?K [big_region] zero_state = Inr s0" by (simp add: Let_def)
  then obtain s0 where init: "uffd_monitor_init ?K [big_region] zero_state = Inr s0" by blast
  have empty: "pages zero_state = []" and none: "wp zero_state = {}"
    by (simp_all add: zero_state_def)
  have K: "\<forall>p. ?K (UFFDIO_WRITEPROTECT p PAGE_SIZE 0) \<noteq> - 1" by simp
  have "card (page_of ` (written ([two_stores] @ [one_store]) \<inter> monitored [big_region]))
          \<le> length (concat (map writes ([two_stores] @ [one_store])))"
    by (rule card_written_le)
  then have cap: "card (page_of ` (written ([two_stores] @ [one_store]) \<inter> monitored [big_region])) \<le> MAX_PAGES"
    by (simp add: two_stores_def one_store_def MAX_PAGES_def)
  have R: "big_region \<in> set [big_region]" by simp
  have a: "in_range (addr_start big_region) (addr_end big_region - addr_start big_region) 0x10000004"
    by (simp add: big_region_def in_range_def)
  show ?thesis
    using restore_every_iteration [OF init empty none K cap R a] init empty none cap a by blast
qed

text \<open>
  Claim C2, as stated, at an explicit iteration. The target stores into one protected
  page. After the whole iteration, restore step included, the log still holds that one
  record, the page that was released is still unprotected, and the only request issued
  on the fault channel is the one that released it.
\<close>

theorem log_cleared_counterexample:
  "\<exists>s1. run_iteration (\<lambda>_. 0) 0 two_stores armed = Inr s1 \<and> n_pages s1 = 1 \<and>
        0x10000000 \<in> wp armed \<and> 0x10000000 \<notin> wp s1 \<and>
        uffd_calls s1 = uffd_calls armed @ [UFFDIO_WRITEPROTECT 0x10000000 PAGE_SIZE 0]"
proof -
  obtain s1 where r1: "run_loop (\<lambda>_. 0) 0 [two_stores] armed = Inr s1"
    and lg: "map addr (pages s1) = [0x10000000]"
    and uc: "uffd_calls s1 = [UFFDIO_WRITEPROTECT 0x10000000 PAGE_SIZE 0]"
    and w: "0x10000000 \<notin> wp s1"
    using two_runs by auto
  have "run_iteration (\<lambda>_. 0) 0 two_stores armed = Inr s1"
    using r1 by (simp split: sum.splits)
  moreover have "n_pages s1 = 1" using arg_cong [OF lg, of length] by simp
  moreover have "0x10000000 \<in> wp armed" by (simp add: armed_facts in_big_region)
  moreover have "uffd_calls armed = []" by (simp add: armed_def zero_state_def)
  ultimately show ?thesis using uc w by simp
qed

text \<open>
  Claim C2, amended. After a target invocation has completed, \<open>restore_pages\<close> copies the
  saved content of every record of the log back to the address of the record. It leaves
  the log and its record count as they are, issues no request on the fault channel and
  leaves the protected set as it is, so a released page stays released; the iteration
  ends in that state, which is the one the next invocation starts from.
\<close>

theorem restore_keeps_log:
  assumes "pages s0 = []" and "run_loop K 0 its s0 = Inr s1" and "run_target K (writes it) s1 = Inr s2"
  shows "pages (restore_pages s2) = pages s2 \<and> wp (restore_pages s2) = wp s2 \<and>
         uffd_calls (restore_pages s2) = uffd_calls s2 \<and>
         (\<forall>r\<in>set (pages s2). \<forall>k<unat PAGE_SIZE.
            mem (restore_pages s2) (addr r + of_nat k) = data r ! k) \<and>
         (\<exists>s3. run_iteration K (length its) it s1 = Inr s3 \<and> pages s3 = pages s2 \<and>
               wp s3 = wp s2 \<and> uffd_calls s3 = uffd_calls s2 \<and> mem s3 = mem (restore_pages s2))"
proof -
  have inv: "log_inv (wp s0) (mem s0) s2" "count_inv (wp s0) UNIV s2"
    using reachable_inv [OF assms] by simp_all
  have d: "distinct (map addr (pages s2))" using inv(2) by (simp add: count_inv_def)
  have w: "\<forall>r\<in>set (pages s2). page_of (addr r) = addr r \<and> length (data r) = unat PAGE_SIZE"
    using inv(1) unfolding log_inv_def by blast
  have "mem (restore_pages s2) (addr r + of_nat k) = data r ! k"
    if r: "r \<in> set (pages s2)" and k: "k < unat PAGE_SIZE" for r k
  proof -
    have "in_range (addr r) PAGE_SIZE (addr r + of_nat k)" "unat (addr r + of_nat k - addr r) = k"
      using offset_in_range [OF k] by simp_all
    then show ?thesis
      using fold_covered [OF d w r, of "addr r + of_nat k" "mem s2"] by (simp add: restore_pages_def)
  qed
  moreover have "\<exists>s3. run_iteration K (length its) it s1 = Inr s3 \<and> pages s3 = pages s2 \<and>
               wp s3 = wp s2 \<and> uffd_calls s3 = uffd_calls s2 \<and> mem s3 = mem (restore_pages s2)"
    using assms(3) by (simp add: run_iteration_def Let_def elapse_def restore_pages_def)
  ultimately show ?thesis by (simp add: restore_pages_def)
qed

text \<open>
  The theorem at the first short iteration.
\<close>

theorem restore_keeps_log_witness:
  "pages armed = [] \<and>
   (\<exists>s2. run_loop (\<lambda>_. 0) 0 [] armed = Inr armed \<and>
      run_target (\<lambda>_. 0) (writes two_stores) armed = Inr s2 \<and>
      map addr (pages s2) = [0x10000000] \<and>
      pages (restore_pages s2) = pages s2 \<and> wp (restore_pages s2) = wp s2 \<and>
      uffd_calls (restore_pages s2) = uffd_calls s2)"
proof -
  have "\<exists>s2. run_target (\<lambda>_. 0) (writes two_stores) armed = Inr s2 \<and> map addr (pages s2) = [0x10000000]"
    by (rule first_iteration_log)
  then obtain s2 where r2: "run_target (\<lambda>_. 0) (writes two_stores) armed = Inr s2"
    and lg: "map addr (pages s2) = [0x10000000]" by auto
  have r1: "run_loop (\<lambda>_. 0) 0 [] armed = Inr armed" by simp
  note t = restore_keeps_log [OF armed_facts(1) r1 r2]
  have k: "pages (restore_pages s2) = pages s2" "wp (restore_pages s2) = wp s2"
    "uffd_calls (restore_pages s2) = uffd_calls s2"
    using t by simp_all
  have "\<exists>s2. run_loop (\<lambda>_. 0) 0 [] armed = Inr armed \<and>
      run_target (\<lambda>_. 0) (writes two_stores) armed = Inr s2 \<and>
      map addr (pages s2) = [0x10000000] \<and>
      pages (restore_pages s2) = pages s2 \<and> wp (restore_pages s2) = wp s2 \<and>
      uffd_calls (restore_pages s2) = uffd_calls s2"
    by (intro exI [of _ s2] conjI) (fact r1 r2 lg k)+
  then show ?thesis using armed_facts(1) by (rule conjI [rotated])
qed

text \<open>
  Claim C3 at the sample region. The steps of \<open>remap\<close> come in the order the claim gives:
  map the scratch range, copy out, the first unmap step, map the original range anew,
  copy in, the second unmap step, set the permissions. Both unmap steps are system call
  number 10, the change-protection call, given two arguments; number 11, the
  destroy-mapping call, is never issued.
\<close>

theorem remap_never_unmaps:
  "remap [big_region] =
     [Syscall NR_mmap [0xdead0000, 0x2000000, 3, 0x32, - 1, 0],
      Copy_bytes 0x10000000 0xdead0000 0x2000000,
      Syscall NR_mprotect [0x10000000, 0x2000000],
      Syscall NR_mmap [0x10000000, 0x2000000, 3, 0x32, - 1, 0],
      Copy_bytes 0xdead0000 0x10000000 0x2000000,
      Syscall NR_mprotect [0xdead0000, 0x2000000],
      Syscall NR_mprotect [0x10000000, 0x2000000, 3]] \<and>
   NR_mprotect = 10 \<and> NR_munmap = 11"
  by (simp add: remap_region_def remap_mmap_def remap_munmap_def remap_mprotect_def
      my_syscall2_def my_syscall3_def my_syscall6_def big_region_def Let_def
      PROT_READ_def PROT_WRITE_def PROT_EXEC_def MAP_PRIVATE_def MAP_ANONYMOUS_def MAP_FIXED_def
      NR_mprotect_def NR_munmap_def)

text \<open>
  Claim C4, as stated, at an explicit iteration: the target takes 5 nanoseconds, the
  restore step 7, and the duration stored for the iteration is 12.
\<close>

theorem duration_excludes_restore_counterexample:
  "\<exists>s'. run_loop (\<lambda>_. 0) 0 [two_stores] armed = Inr s' \<and> target_ns two_stores = 5 \<and>
        restore_ns two_stores = 7 \<and> times s' 0 = 12"
proof -
  obtain s1 where "run_loop (\<lambda>_. 0) 0 [two_stores] armed = Inr s1" and "times s1 0 = 12"
    using two_runs by auto
  then show ?thesis by (auto simp: two_stores_def)
qed

text \<open>
  Claim C4, amended. The first reading of the clock is taken before the stacks are
  swapped and the target is called, the second after \<open>restore_pages\<close> has returned, so
  the stored duration of iteration \<open>i\<close> is the time of the target plus the time of the
  restore step. A run of \<open>N\<close> iterations stores exactly the entries \<open>0\<close> to \<open>N - 1\<close> of
  \<open>times\<close>, one per iteration, and leaves the others as they were.
\<close>

theorem duration_includes_restore:
  assumes "run_loop K 0 its s = Inr s'"
  shows "(\<forall>i<length its. times s' i = int (target_ns (its ! i)) + int (restore_ns (its ! i))) \<and>
         (\<forall>i\<ge>length its. times s' i = times s i)"
  using run_loop_times [OF assms] by simp

text \<open>
  The theorem at the two short iterations.
\<close>

theorem duration_includes_restore_witness:
  "\<exists>s'. run_loop (\<lambda>_. 0) 0 [two_stores, one_store] armed = Inr s' \<and>
        times s' 0 = 12 \<and> times s' 1 = 12 \<and> times s' 2 = times armed 2"
proof -
  let ?W = "written [two_stores, one_store]"
  have "card (page_of ` (?W \<inter> wp armed)) \<le> length (concat (map writes [two_stores, one_store]))"
    by (rule card_written_le)
  then have cap: "card (page_of ` (?W \<inter> wp armed)) \<le> MAX_PAGES"
    by (simp add: two_stores_def one_store_def MAX_PAGES_def)
  have K: "\<forall>p. (\<lambda>_::uffd_ioctl. 0::int) (UFFDIO_WRITEPROTECT p PAGE_SIZE 0) \<noteq> - 1" by simp
  have li: "log_inv (wp armed) (mem armed) armed" and ci: "count_inv (wp armed) ?W armed"
    using initial_inv [OF armed_facts(1)] by simp_all
  have "\<exists>s'. run_loop (\<lambda>_. 0) 0 [two_stores, one_store] armed = Inr s'"
    by (rule run_loop_total [OF finite_written cap K li ci subset_refl])
  then obtain s' where r: "run_loop (\<lambda>_. 0) 0 [two_stores, one_store] armed = Inr s'" by auto
  note t = duration_includes_restore [OF r]
  have "times s' 0 = int (target_ns ([two_stores, one_store] ! 0)) + int (restore_ns ([two_stores, one_store] ! 0))"
    using t by simp
  moreover have "times s' 1 = int (target_ns ([two_stores, one_store] ! 1)) + int (restore_ns ([two_stores, one_store] ! 1))"
    using t by simp
  moreover have "times s' 2 = times armed 2" using t by simp
  ultimately show ?thesis using r by (auto simp: two_stores_def one_store_def)
qed

text \<open>
  Claim C5. On a write-protect fault event (the descriptor is readable, a whole message
  is read, its flags hold the write-protect flag) the watcher takes the fault address
  masked down to a page boundary as the page address; that address is page-aligned and
  its page contains the fault address; the 4096 bytes of that page, as memory holds them
  now, become a new record at the end of the log; and one request removes the
  write-protection of the range of \<open>PAGE_SIZE\<close> bytes at the page address, which is
  exactly the set of addresses of that one page. The log has room for the record
  (\<open>n_pages < 0x1000\<close>; the watcher does not check this, and the spec leaves a full log
  undefined) and the kernel accepts the request.
\<close>

theorem wp_fault_captured:
  assumes "readable ev" and "readret ev = sizeof_uffd_msg"
    and "pf_flags (msg ev) AND UFFD_PAGEFAULT_FLAG_WP \<noteq> 0"
    and "ioctlret ev \<noteq> - 1" and "n_pages s < MAX_PAGES"
  shows "(let page_addr = pf_address (msg ev) AND NOT (PAGE_SIZE - 1);
              saved = load_bytes (mem s) page_addr (unat PAGE_SIZE)
          in page_addr AND (PAGE_SIZE - 1) = 0 \<and>
             in_range page_addr PAGE_SIZE (pf_address (msg ev)) \<and>
             length saved = 4096 \<and>
             (\<forall>k<4096. saved ! k = mem s (page_addr + of_nat k)) \<and>
             {a. in_range page_addr PAGE_SIZE a} = {a. page_of a = page_addr} \<and>
             uffd_monitor_step ev s =
               Inr (s\<lparr>pages := pages s @ [\<lparr>addr = page_addr, data = saved\<rparr>],
                      uffd_calls := uffd_calls s @ [UFFDIO_WRITEPROTECT page_addr PAGE_SIZE 0],
                      wp := wp s - {a. in_range page_addr PAGE_SIZE a}\<rparr>))"
proof -
  let ?p = "page_of (pf_address (msg ev))"
  have step: "uffd_monitor_step ev s =
      Inr (s\<lparr>pages := pages s @ [\<lparr>addr = ?p, data = load_bytes (mem s) ?p (unat PAGE_SIZE)\<rparr>],
             uffd_calls := uffd_calls s @ [UFFDIO_WRITEPROTECT ?p PAGE_SIZE 0],
             wp := wp s - {a. in_range ?p PAGE_SIZE a}\<rparr>)"
    using assms
    by (simp add: uffd_monitor_step_def readable_def uffdio_writeprotect_def page_of_def
        sizeof_uffd_msg_def Let_def)
  have "?p AND (PAGE_SIZE - 1) = 0" by (rule page_of_aligned)
  moreover have "in_range ?p PAGE_SIZE (pf_address (msg ev))" by (rule page_of_in_range)
  moreover have "length (load_bytes (mem s) ?p (unat PAGE_SIZE)) = 4096"
    by (simp add: load_bytes_length unat_PAGE_SIZE)
  moreover have "\<forall>k<4096. load_bytes (mem s) ?p (unat PAGE_SIZE) ! k = mem s (?p + of_nat k)"
    by (simp add: load_bytes_nth unat_PAGE_SIZE)
  moreover have "{a. in_range ?p PAGE_SIZE a} = {a. page_of a = ?p}"
    by (simp add: same_page_iff)
  ultimately show ?thesis using step by (simp add: Let_def page_of_def)
qed

text \<open>
  The theorem at a fault at the address \<open>0x10001234\<close> of the armed sample region,
  whose page is \<open>0x10001000\<close>.
\<close>

theorem wp_fault_captured_witness:
  "(let ev = wp_fault_event (\<lambda>_. 0) 0x10001234; s = armed;
        page_addr = pf_address (msg ev) AND NOT (PAGE_SIZE - 1);
        saved = load_bytes (mem s) page_addr (unat PAGE_SIZE)
    in readable ev \<and> readret ev = sizeof_uffd_msg \<and>
       pf_flags (msg ev) AND UFFD_PAGEFAULT_FLAG_WP \<noteq> 0 \<and> ioctlret ev \<noteq> - 1 \<and>
       n_pages s < MAX_PAGES \<and> page_addr = 0x10001000 \<and>
       uffd_monitor_step ev s =
         Inr (s\<lparr>pages := pages s @ [\<lparr>addr = page_addr, data = saved\<rparr>],
                uffd_calls := uffd_calls s @ [UFFDIO_WRITEPROTECT page_addr PAGE_SIZE 0],
                wp := wp s - {a. in_range page_addr PAGE_SIZE a}\<rparr>))"
proof -
  let ?ev = "wp_fault_event (\<lambda>_. 0) 0x10001234"
  have h1: "readable ?ev"
    by (simp add: readable_def wp_fault_event_def POLLIN_def POLLERR_def)
  have h2: "readret ?ev = sizeof_uffd_msg" by (simp add: wp_fault_event_def)
  have h3: "pf_flags (msg ?ev) AND UFFD_PAGEFAULT_FLAG_WP \<noteq> 0"
    by (simp add: wp_fault_event_def UFFD_PAGEFAULT_FLAG_WP_def UFFD_PAGEFAULT_FLAG_WRITE_def)
  have h4: "ioctlret ?ev \<noteq> - 1" by (simp add: wp_fault_event_def)
  have h5: "n_pages armed < MAX_PAGES" by (simp add: armed_facts MAX_PAGES_def)
  have pa: "pf_address (msg ?ev) AND NOT (PAGE_SIZE - 1) = 0x10001000"
    by (simp add: wp_fault_event_def PAGE_SIZE_def)
  show ?thesis
    using wp_fault_captured [OF h1 h2 h3 h4 h5] h1 h2 h3 h4 h5 pa
    by (simp add: Let_def)
qed

text \<open>
  Claim C6. In any state reached after some completed iterations and then some stores
  of the current one, no two records of the log have the same page address; a store to
  an address whose page is already in the log goes straight to memory and appends no
  record; and every record holds, for each monitored address of its page, the byte that
  was there when the current iteration began, that is, before the first store to the
  page.
\<close>

theorem one_record_per_page:
  assumes "pages s0 = []" and "run_loop K 0 its s0 = Inr s1" and "run_target K ws s1 = Inr s"
  shows "distinct (map addr (pages s)) \<and>
         (\<forall>b v. page_of b \<in> addr ` set (pages s) \<longrightarrow>
            target_write K (b, v) s = Inr (s\<lparr>mem := (mem s)(b := v)\<rparr>)) \<and>
         (\<forall>r\<in>set (pages s). \<forall>x\<in>wp s0. in_range (addr r) PAGE_SIZE x \<longrightarrow>
            data r ! unat (x - addr r) = mem s1 x)"
proof -
  have inv: "log_inv (wp s0) (mem s0) s" "count_inv (wp s0) UNIV s" "\<forall>a\<in>wp s0. mem s1 a = mem s0 a"
    using reachable_inv [OF assms] by simp_all
  have "distinct (map addr (pages s))" using inv(2) by (simp add: count_inv_def)
  moreover have "target_write K (b, v) s = Inr (s\<lparr>mem := (mem s)(b := v)\<rparr>)"
    if pb: "page_of b \<in> addr ` set (pages s)" for b v
  proof -
    obtain r where "r \<in> set (pages s)" "page_of b = addr r" using pb by blast
    then have "b \<notin> wp s" using logged_not_wp [OF inv(1)] by blast
    then show ?thesis by (rule target_write_plain)
  qed
  moreover have "\<forall>r\<in>set (pages s). \<forall>x\<in>wp s0. in_range (addr r) PAGE_SIZE x \<longrightarrow>
            data r ! unat (x - addr r) = mem s1 x"
    using inv(1,3) unfolding log_inv_def by simp
  ultimately show ?thesis by blast
qed

text \<open>
  The theorem after the first short iteration and the store of the second.
\<close>

theorem one_record_per_page_witness:
  "pages armed = [] \<and>
   (\<exists>s1 s. run_loop (\<lambda>_. 0) 0 [two_stores] armed = Inr s1 \<and>
      run_target (\<lambda>_. 0) (writes one_store) s1 = Inr s \<and>
      map addr (pages s) = [0x10000000, 0x10001000] \<and> distinct (map addr (pages s)) \<and>
      target_write (\<lambda>_. 0) (0x10000008, 4) s = Inr (s\<lparr>mem := (mem s)(0x10000008 := 4)\<rparr>))"
proof -
  obtain s1 s where r1: "run_loop (\<lambda>_. 0) 0 [two_stores] armed = Inr s1"
    and r2: "run_target (\<lambda>_. 0) (writes one_store) s1 = Inr s"
    and lg: "map addr (pages s) = [0x10000000, 0x10001000]"
    using two_runs by auto
  have "set (map addr (pages s)) = {0x10000000, 0x10001000}" by (simp add: lg)
  then have "addr ` set (pages s) = {0x10000000, 0x10001000}" by simp
  moreover have "page_of 0x10000008 = 0x10000000" by (simp add: page_of_def PAGE_SIZE_def)
  ultimately have pg: "page_of 0x10000008 \<in> addr ` set (pages s)" by simp
  note t = one_record_per_page [OF armed_facts(1) r1 r2]
  have d: "distinct (map addr (pages s))" using t by (rule conjunct1)
  have "\<forall>b v. page_of b \<in> addr ` set (pages s) \<longrightarrow>
            target_write (\<lambda>_. 0) (b, v) s = Inr (s\<lparr>mem := (mem s)(b := v)\<rparr>)"
    using t by (elim conjE)
  then have tw: "target_write (\<lambda>_. 0) (0x10000008, 4) s = Inr (s\<lparr>mem := (mem s)(0x10000008 := 4)\<rparr>)"
    using pg by (elim allE impE)
  have "\<exists>s1 s. run_loop (\<lambda>_. 0) 0 [two_stores] armed = Inr s1 \<and>
      run_target (\<lambda>_. 0) (writes one_store) s1 = Inr s \<and>
      map addr (pages s) = [0x10000000, 0x10001000] \<and> distinct (map addr (pages s)) \<and>
      target_write (\<lambda>_. 0) (0x10000008, 4) s = Inr (s\<lparr>mem := (mem s)(0x10000008 := 4)\<rparr>)"
    by (intro exI [of _ s1] exI [of _ s] conjI) (fact r1 r2 lg d tw)+
  then show ?thesis using armed_facts(1) by (rule conjI [rotated])
qed

text \<open>
  Claim C7. \<open>load_maps\<close> returns 0 and the table \<open>maps\<close> holds, in the order of the
  memory map, exactly the enumerated regions whose start is neither \<open>REMAP_ADDR\<close> nor
  \<open>WRITE_IGNORED_ADDR\<close>, that have at least one of read, write and execute permission,
  whose path is none of \<open>[vsyscall]\<close>, \<open>[vvar]\<close> and \<open>[vdso]\<close>, and whose start is not
  \<open>GOT_PLT_ADDR\<close>. The table starts empty and the regions that pass are at most
  \<open>0x100\<close>, the size of the table (the loop does not check this, and the spec leaves a
  full table undefined).
\<close>

theorem monitored_iff_selected:
  assumes "maps s = []" and "length (filter (selected L) regions) \<le> MAX_MAPS"
  shows "\<exists>s'. load_maps L (Some regions) s = Inr (0, s') \<and>
           maps s' = filter (selected L) regions \<and>
           (\<forall>r. r \<in> set (maps s') \<longleftrightarrow>
                r \<in> set regions \<and>
                addr_start r \<noteq> REMAP_ADDR L \<and> addr_start r \<noteq> WRITE_IGNORED_ADDR L \<and>
                (is_r r \<or> is_w r \<or> is_x r) \<and>
                pathname r \<noteq> ''[vsyscall]'' \<and> pathname r \<noteq> ''[vvar]'' \<and> pathname r \<noteq> ''[vdso]'' \<and>
                addr_start r \<noteq> GOT_PLT_ADDR L)"
proof -
  have "load_maps_loop L regions (maps s) = Inr (maps s @ filter (selected L) regions)"
    by (rule load_maps_loop_filter) (use assms in simp)
  then have "load_maps L (Some regions) s = Inr (0, s\<lparr>maps := filter (selected L) regions\<rparr>)"
    using assms(1) by (simp add: load_maps_def)
  then show ?thesis by (auto simp: selected_def)
qed

text \<open>
  The theorem at the sample memory map: one region in each excluded class and one that
  passes.
\<close>

theorem monitored_iff_selected_witness:
  "maps zero_state = [] \<and> length (filter (selected sample_layout) sample_regions) \<le> MAX_MAPS \<and>
   (\<exists>s'. load_maps sample_layout (Some sample_regions) zero_state = Inr (0, s') \<and>
         maps s' = [big_region])"
proof -
  have m: "maps zero_state = []" by (simp add: zero_state_def)
  have n: "length (filter (selected sample_layout) sample_regions) \<le> MAX_MAPS"
    by (simp add: sample_selected MAX_MAPS_def)
  obtain s' where "load_maps sample_layout (Some sample_regions) zero_state = Inr (0, s')"
    and "maps s' = filter (selected sample_layout) sample_regions"
    using monitored_iff_selected [OF m n] by auto
  then have "\<exists>s'. load_maps sample_layout (Some sample_regions) zero_state = Inr (0, s') \<and>
         maps s' = [big_region]"
    by (auto simp: sample_selected)
  then show ?thesis using m n by simp
qed

text \<open>
  Claim C8. A failed poll (\<open>-1\<close>) and an empty poll (\<open>0\<close>), and a read that returns
  \<open>-1\<close> with \<open>EAGAIN\<close>, send the watcher back to the wait with the state untouched.
  A read of any other length than the message size ends the process with status 4, and a
  refused request to remove the protection ends it with status 5.
\<close>

theorem watcher_error_policy:
  "(pollres ev = - 1 \<or> pollres ev = 0 \<longrightarrow> uffd_monitor_step ev s = Inr s) \<and>
   (readable ev \<and> readret ev = - 1 \<and> errno ev = EAGAIN \<longrightarrow> uffd_monitor_step ev s = Inr s) \<and>
   (readable ev \<and> readret ev \<noteq> - 1 \<and> readret ev \<noteq> sizeof_uffd_msg \<longrightarrow>
      uffd_monitor_step ev s = Inl (Exit 4)) \<and>
   (readable ev \<and> readret ev = sizeof_uffd_msg \<and>
    pf_flags (msg ev) AND UFFD_PAGEFAULT_FLAG_WP \<noteq> 0 \<and> n_pages s < MAX_PAGES \<and>
    ioctlret ev = - 1 \<longrightarrow> uffd_monitor_step ev s = Inl (Exit 5))"
  by (simp add: uffd_monitor_step_def readable_def sizeof_uffd_msg_def Let_def)

text \<open>
  The theorem at one event of each of the five kinds.
\<close>

theorem watcher_error_policy_witness:
  "uffd_monitor_step ((wp_fault_event (\<lambda>_. 0) 0x1234)\<lparr>pollres := - 1\<rparr>) zero_state = Inr zero_state \<and>
   uffd_monitor_step ((wp_fault_event (\<lambda>_. 0) 0x1234)\<lparr>pollres := 0\<rparr>) zero_state = Inr zero_state \<and>
   uffd_monitor_step ((wp_fault_event (\<lambda>_. 0) 0x1234)\<lparr>readret := - 1, errno := EAGAIN\<rparr>) zero_state
     = Inr zero_state \<and>
   uffd_monitor_step ((wp_fault_event (\<lambda>_. 0) 0x1234)\<lparr>readret := 16\<rparr>) zero_state = Inl (Exit 4) \<and>
   uffd_monitor_step (wp_fault_event (\<lambda>_. - 1) 0x1234) zero_state = Inl (Exit 5)"
proof -
  let ?ev = "wp_fault_event (\<lambda>_. 0) 0x1234"
  have r: "readable (?ev\<lparr>readret := - 1, errno := EAGAIN\<rparr>)" "readable (?ev\<lparr>readret := 16\<rparr>)"
    "readable (wp_fault_event (\<lambda>_. - 1) 0x1234)"
    by (simp_all add: readable_def wp_fault_event_def POLLIN_def POLLERR_def)
  have f: "pf_flags (msg (wp_fault_event (\<lambda>_. - 1) 0x1234)) AND UFFD_PAGEFAULT_FLAG_WP \<noteq> 0"
    by (simp add: wp_fault_event_def UFFD_PAGEFAULT_FLAG_WP_def UFFD_PAGEFAULT_FLAG_WRITE_def)
  have n: "n_pages zero_state < MAX_PAGES" by (simp add: zero_state_def MAX_PAGES_def)
  show ?thesis
    using watcher_error_policy [of "?ev\<lparr>pollres := - 1\<rparr>" zero_state]
      watcher_error_policy [of "?ev\<lparr>pollres := 0\<rparr>" zero_state]
      watcher_error_policy [of "?ev\<lparr>readret := - 1, errno := EAGAIN\<rparr>" zero_state]
      watcher_error_policy [of "?ev\<lparr>readret := 16\<rparr>" zero_state]
      watcher_error_policy [of "wp_fault_event (\<lambda>_. - 1) 0x1234" zero_state]
      r f n
    by (simp add: wp_fault_event_def sizeof_uffd_msg_def)
qed

text \<open>
  Claim C9 at the sample run, in which every system call succeeds. \<open>run\<close> returns 0
  and the requests it has issued on the fault channel are the handshake, the
  registration of the one monitored region, its write-protection and the release of the
  page the target wrote: no \<open>UFFDIO_UNREGISTER\<close> is among them, although the region is
  in \<open>maps\<close>. \<open>uffd_deregister\<close> is never called.
\<close>

theorem run_never_deregisters:
  "\<exists>s'. run sample_layout sample_env zero_state = Inr (0, s') \<and>
        maps s' = [big_region] \<and>
        uffd_calls s' =
          [UFFDIO_API,
           UFFDIO_REGISTER 0x10000000 0x2000000 UFFDIO_REGISTER_MODE_WP,
           UFFDIO_WRITEPROTECT 0x10000000 0x2000000 UFFDIO_WRITEPROTECT_MODE_WP,
           UFFDIO_WRITEPROTECT 0x10000000 PAGE_SIZE 0]"
proof -
  have m: "maps zero_state = []" by (simp add: zero_state_def)
  have lm: "load_maps sample_layout (Some sample_regions) zero_state = Inr (0, zero_state\<lparr>maps := [big_region]\<rparr>)"
    using load_maps_loop_filter [of "[]" sample_layout sample_regions]
    by (simp add: load_maps_def m sample_selected MAX_MAPS_def)
  show ?thesis
    apply (simp add: run_def sample_env_def lm Let_def uffd_setup_def UFFD_API_def
      UFFD_FEATURE_PAGEFAULT_FLAG_WP_def)
    apply (simp add: big_region_def zero_state_def uffdio_writeprotect_def UFFDIO_WRITEPROTECT_MODE_WP_def
       two_stores_def target_write_def run_iteration_def Let_def in_range_def fault_step MAX_PAGES_def
       elapse_def restore_pages_def page_of_def PAGE_SIZE_def UFFDIO_REGISTER_MODE_WP_def)
    done
qed

text \<open>
  Claim C10. When the watcher has read a whole message whose page-fault flags lack the
  write-protect flag, the pass ends with the state it started with: the log and its
  length, the protected set and the list of requests are unchanged, and the loop goes
  round to the next wait.
\<close>

theorem non_wp_fault_ignored:
  assumes "readable ev" and "readret ev = sizeof_uffd_msg"
    and "pf_flags (msg ev) AND UFFD_PAGEFAULT_FLAG_WP = 0"
  shows "uffd_monitor_step ev s = Inr s"
  using assms by (simp add: uffd_monitor_step_def readable_def sizeof_uffd_msg_def)

text \<open>
  The theorem at a write fault that is not a write-protect fault.
\<close>

theorem non_wp_fault_ignored_witness:
  "(let ev = (wp_fault_event (\<lambda>_. 0) 0x1234)\<lparr>msg := \<lparr>pf_flags = UFFD_PAGEFAULT_FLAG_WRITE, pf_address = 0x1234\<rparr>\<rparr>
    in readable ev \<and> readret ev = sizeof_uffd_msg \<and>
       pf_flags (msg ev) AND UFFD_PAGEFAULT_FLAG_WP = 0 \<and>
       uffd_monitor_step ev zero_state = Inr zero_state)"
proof -
  let ?ev = "(wp_fault_event (\<lambda>_. 0) 0x1234)\<lparr>msg := \<lparr>pf_flags = UFFD_PAGEFAULT_FLAG_WRITE, pf_address = 0x1234\<rparr>\<rparr>"
  have h1: "readable ?ev"
    by (simp add: readable_def wp_fault_event_def POLLIN_def POLLERR_def)
  have h2: "readret ?ev = sizeof_uffd_msg" by (simp add: wp_fault_event_def)
  have h3: "pf_flags (msg ?ev) AND UFFD_PAGEFAULT_FLAG_WP = 0"
    by (simp add: UFFD_PAGEFAULT_FLAG_WP_def UFFD_PAGEFAULT_FLAG_WRITE_def)
  show ?thesis
    using non_wp_fault_ignored [OF h1 h2 h3, of zero_state] h1 h2 h3 by (simp add: Let_def)
qed

end
